theory Spec2Isabelle
  imports Main "HOL-Library.Sublist"
begin

section \<open>Python string primitives\<close>

text \<open>
  A Python \<open>str\<close> is modelled as a \<open>string\<close>; every \<open>char\<close> stands for one code
  point (only code points below 256 are representable).  \<open>is_space\<close> is the
  predicate behind both \<open>str.strip()\<close> and the regular-expression class \<open>\s\<close>
  for \<open>str\<close> patterns: TAB..CR, FS..US, SPACE, NEL and NBSP in this range.
\<close>

definition is_space :: \<open>char \<Rightarrow> bool\<close> where
  \<open>is_space c =
     (let n = (of_char c :: nat)
      in (9 \<le> n \<and> n \<le> 13) \<or> (28 \<le> n \<and> n \<le> 32) \<or> n = 133 \<or> n = 160)\<close>

definition lstrip :: \<open>string \<Rightarrow> string\<close> where
  \<open>lstrip s = dropWhile is_space s\<close>

definition rstrip :: \<open>string \<Rightarrow> string\<close> where
  \<open>rstrip s = rev (dropWhile is_space (rev s))\<close>

text \<open>\<open>s.strip()\<close>\<close>

definition strip :: \<open>string \<Rightarrow> string\<close> where
  \<open>strip s = rstrip (lstrip s)\<close>

text \<open>
  \<open>find_at sub s i\<close> scans the suffix \<open>s\<close>, whose first character has index \<open>i\<close>
  in the whole string, for the lowest index at which \<open>sub\<close> begins.
\<close>

fun find_at :: \<open>string \<Rightarrow> string \<Rightarrow> nat \<Rightarrow> nat option\<close> where
  \<open>find_at sub [] i = (if sub = [] then Some i else None)\<close>
| \<open>find_at sub (x # xs) i =
     (if prefix sub (x # xs) then Some i else find_at sub xs (Suc i))\<close>

text \<open>
  A slice bound as Python resolves it against a length \<open>n\<close>: a negative bound counts
  from the end, and every bound is clipped into \<open>0..n\<close>.
\<close>

definition clip :: \<open>nat \<Rightarrow> int \<Rightarrow> nat\<close> where
  \<open>clip n i = (if i < 0 then nat (max 0 (int n + i)) else min n (nat i))\<close>

text \<open>\<open>s.find(sub, start)\<close>: the lowest index at or after \<open>start\<close>, or \<open>-1\<close>.\<close>

definition str_find :: \<open>string \<Rightarrow> string \<Rightarrow> int \<Rightarrow> int\<close> where
  \<open>str_find s sub start =
     (if int (length s) < start then - 1
      else (case find_at sub (drop (clip (length s) start) s) (clip (length s) start) of
              None \<Rightarrow> - 1
            | Some i \<Rightarrow> int i))\<close>

text \<open>\<open>s[i:j]\<close>, \<open>s[:j]\<close> and \<open>s[i:]\<close>\<close>

definition slice :: \<open>string \<Rightarrow> int \<Rightarrow> int \<Rightarrow> string\<close> where
  \<open>slice s i j = take (clip (length s) j - clip (length s) i) (drop (clip (length s) i) s)\<close>

definition slice_to :: \<open>string \<Rightarrow> int \<Rightarrow> string\<close> where
  \<open>slice_to s j = take (clip (length s) j) s\<close>

definition slice_from :: \<open>string \<Rightarrow> int \<Rightarrow> string\<close> where
  \<open>slice_from s i = drop (clip (length s) i) s\<close>


section \<open>The regular expressions of the scripts, and a backtracking matcher\<close>

text \<open>
  The patterns used by the two scripts are sequences of literals, single-character
  repetitions (greedy \<open>*\<close> and \<open>+\<close>, lazy \<open>*?\<close>), one negative lookahead and one
  capturing group.  A pattern is the list of its items from left to right; the
  parentheses of the capturing group are the two marks \<open>MarkOpen\<close> and \<open>MarkClose\<close>.
  \<open>AnyChar\<close> is \<open>[\s\S]\<close>, and \<open>.\<close> under \<open>re.DOTALL\<close>; \<open>Space\<close> is \<open>\s\<close>.
\<close>

datatype cclass = AnyChar | Space

fun in_class :: \<open>cclass \<Rightarrow> char \<Rightarrow> bool\<close> where
  \<open>in_class AnyChar c = True\<close>
| \<open>in_class Space c = is_space c\<close>

datatype ritem =
    Lit string
  | Star cclass
  | Plus cclass
  | Lazy cclass
  | NotAhead \<open>ritem list\<close>
  | MarkOpen
  | MarkClose

text \<open>The positions of group 1: \<open>m.start(1)\<close> and \<open>m.end(1)\<close>.\<close>

type_synonym marks = \<open>nat option \<times> nat option\<close>

text \<open>
  \<open>rmatch p s i m\<close> matches the pattern \<open>p\<close> at the head of the suffix \<open>s\<close>, which
  begins at index \<open>i\<close> of the subject, and returns the end index of the first match
  in backtracking order: a greedy repetition first tries to take one more character
  and only then the rest of the pattern, a lazy one first tries the rest of the
  pattern and only then one more character.
\<close>

fun rmatch :: \<open>ritem list \<Rightarrow> string \<Rightarrow> nat \<Rightarrow> marks \<Rightarrow> (nat \<times> marks) option\<close> where
  \<open>rmatch [] s i m = Some (i, m)\<close>
| \<open>rmatch (Lit l # p) s i m =
     (if prefix l s then rmatch p (drop (length l) s) (i + length l) m else None)\<close>
| \<open>rmatch (Star c # p) [] i m = rmatch p [] i m\<close>
| \<open>rmatch (Star c # p) (x # xs) i m =
     (if in_class c x
      then (case rmatch (Star c # p) xs (Suc i) m of
              Some r \<Rightarrow> Some r
            | None \<Rightarrow> rmatch p (x # xs) i m)
      else rmatch p (x # xs) i m)\<close>
| \<open>rmatch (Plus c # p) [] i m = None\<close>
| \<open>rmatch (Plus c # p) (x # xs) i m =
     (if in_class c x then rmatch (Star c # p) xs (Suc i) m else None)\<close>
| \<open>rmatch (Lazy c # p) [] i m = rmatch p [] i m\<close>
| \<open>rmatch (Lazy c # p) (x # xs) i m =
     (case rmatch p (x # xs) i m of
        Some r \<Rightarrow> Some r
      | None \<Rightarrow> if in_class c x then rmatch (Lazy c # p) xs (Suc i) m else None)\<close>
| \<open>rmatch (NotAhead q # p) s i m =
     (case rmatch q s i m of Some r \<Rightarrow> None | None \<Rightarrow> rmatch p s i m)\<close>
| \<open>rmatch (MarkOpen # p) s i m = rmatch p s i (Some i, snd m)\<close>
| \<open>rmatch (MarkClose # p) s i m = rmatch p s i (fst m, Some i)\<close>

text \<open>A match object: \<open>m.start()\<close>, \<open>m.end()\<close> and the span of group 1.\<close>

record rmatch_obj =
  m_start :: nat
  m_end :: nat
  m_group :: marks

text \<open>
  \<open>re.search(p, s)\<close>: the match at the lowest start index, tried from every index up
  to and including the length.  \<open>search_at p s i\<close> searches the suffix \<open>s\<close> that begins
  at index \<open>i\<close>.
\<close>

fun search_at :: \<open>ritem list \<Rightarrow> string \<Rightarrow> nat \<Rightarrow> rmatch_obj option\<close> where
  \<open>search_at p [] i =
     (case rmatch p [] i (None, None) of
        Some (e, g) \<Rightarrow> Some \<lparr>m_start = i, m_end = e, m_group = g\<rparr>
      | None \<Rightarrow> None)\<close>
| \<open>search_at p (x # xs) i =
     (case rmatch p (x # xs) i (None, None) of
        Some (e, g) \<Rightarrow> Some \<lparr>m_start = i, m_end = e, m_group = g\<rparr>
      | None \<Rightarrow> search_at p xs (Suc i))\<close>

definition re_search :: \<open>ritem list \<Rightarrow> string \<Rightarrow> rmatch_obj option\<close> where
  \<open>re_search p s = search_at p s 0\<close>

text \<open>\<open>m.group(1)\<close> of a match in the subject \<open>s\<close>, for a group that took part in the match.\<close>

definition group1 :: \<open>string \<Rightarrow> rmatch_obj \<Rightarrow> string\<close> where
  \<open>group1 s mo =
     (case m_group mo of
        (Some a, Some b) \<Rightarrow> slice s (int a) (int b)
      | _ \<Rightarrow> [])\<close>

text \<open>
  \<open>re.sub(p, repl, s)\<close> for a replacement without group references: the matches are
  found from left to right without overlap, each is replaced by \<open>repl\<close>, and the
  characters between them are copied.  After an empty match the scan copies one
  character and goes on; no pattern of the scripts matches the empty string.
\<close>

function re_sub :: \<open>ritem list \<Rightarrow> string \<Rightarrow> string \<Rightarrow> string\<close> where
  \<open>re_sub p repl [] = (case rmatch p [] 0 (None, None) of Some r \<Rightarrow> repl | None \<Rightarrow> [])\<close>
| \<open>re_sub p repl (x # xs) =
     (case rmatch p (x # xs) 0 (None, None) of
        Some (e, g) \<Rightarrow>
          if e = 0 then repl @ x # re_sub p repl xs
          else repl @ re_sub p repl (drop e (x # xs))
      | None \<Rightarrow> x # re_sub p repl xs)\<close>
  by pat_completeness auto
termination
  by (relation \<open>measure (\<lambda>(p, repl, s). length s)\<close>) auto


section \<open>The documents and the console\<close>

text \<open>
  Both scripts work on two files of the current directory.  The file system is a map
  from a path to the text of the file; a path outside its domain does not exist.
  Text is what \<open>read\<close> returns and \<open>write\<close> receives.
\<close>

type_synonym fs = \<open>string \<rightharpoonup> string\<close>

definition start_marker :: string where
  \<open>start_marker = ''<!-- ========== SYNC MARKER: START ESP32 HTML ========== -->''\<close>

definition end_marker :: string where
  \<open>end_marker = ''<!-- ========== SYNC MARKER: END ESP32 HTML ========== -->''\<close>

text \<open>One constructor for each \<open>print\<close> statement of \<open>sync_check.py\<close>.\<close>

datatype out =
    StandaloneNotFound
  | MarkersNotFound
  | InoNotFound
  | InoPatternNotFound
  | Checking
  | Rule
  | Synchronized
  | ContentLength nat
  | NotSynchronized
  | StandaloneLength nat
  | InoLength nat
  | FirstDifference nat
  | StandaloneContext string
  | InoContext string
  | Title
  | InSync
  | NeedSync
  | Hint


section \<open>sync\_check.py\<close>

text \<open>
  A function that prints returns the lines it printed together with its value;
  \<open>None\<close> is Python's \<open>None\<close>.
\<close>

definition extract_html_from_standalone :: \<open>fs \<Rightarrow> out list \<times> string option\<close> where
  \<open>extract_html_from_standalone files =
     (case files ''config_interface.html'' of
        None \<Rightarrow> ([StandaloneNotFound], None)
      | Some content \<Rightarrow>
          let start_idx = str_find content start_marker 0;
              end_idx = str_find content end_marker 0
          in if start_idx = - 1 \<or> end_idx = - 1 then ([MarkersNotFound], None)
             else let start_idx = str_find content ''\<newline>'' start_idx + 1;
                      html_content = strip (slice content start_idx end_idx)
                  in ([], Some html_content))\<close>

text \<open>
  \<^verbatim>\<open>void handleRoot\(\) \{[\s\S]*?String html = R"\(\s*([\s\S]*?)\s*\)";\<close>
\<close>

definition ino_pattern :: \<open>ritem list\<close> where
  \<open>ino_pattern =
     [Lit ''void handleRoot() {'', Lazy AnyChar, Lit ''String html = R"('', Star Space,
      MarkOpen, Lazy AnyChar, MarkClose, Star Space, Lit '')";'']\<close>

definition extract_html_from_ino :: \<open>fs \<Rightarrow> out list \<times> string option\<close> where
  \<open>extract_html_from_ino files =
     (case files ''swim_pacer.ino'' of
        None \<Rightarrow> ([InoNotFound], None)
      | Some content \<Rightarrow>
          (case re_search ino_pattern content of
             None \<Rightarrow> ([InoPatternNotFound], None)
           | Some match \<Rightarrow>
               let html_content = strip (group1 content match)
               in ([], Some html_content)))\<close>

text \<open>\<^verbatim>\<open><!--(?!.*SYNC MARKER).*?-->\<close> with \<open>re.DOTALL\<close>, then \<^verbatim>\<open>\s+\<close> and \<^verbatim>\<open>>\s+<\<close>.\<close>

definition comment_pattern :: \<open>ritem list\<close> where
  \<open>comment_pattern =
     [Lit ''<!--'', NotAhead [Star AnyChar, Lit ''SYNC MARKER''], Lazy AnyChar, Lit ''-->'']\<close>

definition spaces_pattern :: \<open>ritem list\<close> where
  \<open>spaces_pattern = [Plus Space]\<close>

definition gap_pattern :: \<open>ritem list\<close> where
  \<open>gap_pattern = [Lit ''>'', Plus Space, Lit ''<'']\<close>

definition normalize_html :: \<open>string \<Rightarrow> string\<close> where
  \<open>normalize_html html_content =
     (if html_content = [] then []
      else let html_content = re_sub comment_pattern [] html_content;
               html_content = re_sub spaces_pattern '' '' html_content;
               html_content = re_sub gap_pattern ''><'' html_content
           in strip html_content)\<close>

text \<open>
  The loop over \<open>enumerate(zip(normalized_standalone, normalized_ino))\<close>: it prints
  at the first pair of unequal characters and breaks.
\<close>

fun show_first_difference :: \<open>string \<Rightarrow> string \<Rightarrow> (nat \<times> char \<times> char) list \<Rightarrow> out list\<close> where
  \<open>show_first_difference normalized_standalone normalized_ino [] = []\<close>
| \<open>show_first_difference normalized_standalone normalized_ino ((i, a, b) # rest) =
     (if a \<noteq> b
      then let start = max 0 (int i - 50);
               end = min (int (length normalized_standalone)) (int i + 50)
           in [FirstDifference i,
               StandaloneContext (slice normalized_standalone start end),
               InoContext (slice normalized_ino start end)]
      else show_first_difference normalized_standalone normalized_ino rest)\<close>

definition compare_html :: \<open>fs \<Rightarrow> out list \<times> bool\<close> where
  \<open>compare_html files =
     (let (out1, standalone_html) = extract_html_from_standalone files;
          (out2, ino_html) = extract_html_from_ino files
      in case (standalone_html, ino_html) of
           (Some standalone_html, Some ino_html) \<Rightarrow>
             let normalized_standalone = normalize_html standalone_html;
                 normalized_ino = normalize_html ino_html
             in if normalized_standalone = normalized_ino
                then ([Checking, Rule] @ out1 @ out2 @
                      [Synchronized, ContentLength (length normalized_standalone)], True)
                else ([Checking, Rule] @ out1 @ out2 @
                      [NotSynchronized,
                       StandaloneLength (length normalized_standalone),
                       InoLength (length normalized_ino)] @
                      show_first_difference normalized_standalone normalized_ino
                        (enumerate 0 (zip normalized_standalone normalized_ino)), False)
         | _ \<Rightarrow> ([Checking, Rule] @ out1 @ out2, False))\<close>

text \<open>The lines printed and the exit status of the process.\<close>

definition sync_check_main :: \<open>fs \<Rightarrow> out list \<times> int\<close> where
  \<open>sync_check_main files =
     (let (printed, success) = compare_html files
      in if success then ([Title, Rule] @ printed @ [InSync], 0)
         else ([Title, Rule] @ printed @ [NeedSync, Hint], 1))\<close>


section \<open>update\_esp32\_html.py\<close>

text \<open>
  An exception is a value: \<open>open\<close> of a missing file raises \<open>FileNotFoundError\<close>, the
  splicer raises \<open>ValueError\<close> with a message.  A function that may write returns its
  result together with the file system it leaves behind.
\<close>

datatype error = FileNotFoundError | ValueError string

definition extract_html_content :: \<open>string \<Rightarrow> fs \<Rightarrow> error + string\<close> where
  \<open>extract_html_content file_path files =
     (case files file_path of
        None \<Rightarrow> Inl FileNotFoundError
      | Some text \<Rightarrow> Inr (strip text))\<close>

text \<open>\<^verbatim>\<open>String html = R"\(\<close>\<close>

definition start_pattern :: \<open>ritem list\<close> where
  \<open>start_pattern = [Lit ''String html = R"('']\<close>

definition update_esp32_html :: \<open>string \<Rightarrow> string \<Rightarrow> fs \<Rightarrow> (error + unit) \<times> fs\<close> where
  \<open>update_esp32_html ino_file html_content files =
     (case files ino_file of
        None \<Rightarrow> (Inl FileNotFoundError, files)
      | Some ino_content \<Rightarrow>
          (case re_search start_pattern ino_content of
             None \<Rightarrow> (Inl (ValueError ''Could not find HTML string start in ESP32 file''), files)
           | Some start_match \<Rightarrow>
               let start_pos = int (m_end start_match);
                   end_marker_in_ino = str_find ino_content end_marker start_pos
               in if end_marker_in_ino = - 1
                  then (Inl (ValueError ''Could not find end marker in ESP32 file''), files)
                  else let closing_pos = str_find ino_content '')";\<newline>'' end_marker_in_ino
                       in if closing_pos = - 1
                          then (Inl (ValueError ''Could not find HTML string end in ESP32 file''),
                                files)
                          else let new_content =
                                     slice_to ino_content start_pos @
                                     ''\<newline>'' @ html_content @ ''\<newline>'' @
                                     slice_from ino_content closing_pos
                               in (Inr (), files(ino_file \<mapsto> new_content))))\<close>

text \<open>One constructor for each \<open>print\<close> statement of \<open>update_esp32_html.py\<close>.\<close>

datatype update_out =
    Extracting
  | Extracted nat
  | Updating
  | Updated
  | ShouldBeSynchronized
  | Failed error

text \<open>The lines printed, the return value of \<open>main\<close> and the file system afterwards.\<close>

definition update_main :: \<open>fs \<Rightarrow> update_out list \<times> int \<times> fs\<close> where
  \<open>update_main files =
     (case extract_html_content ''config_interface.html'' files of
        Inl e \<Rightarrow> ([Extracting, Failed e], 1, files)
      | Inr html_content \<Rightarrow>
          (case update_esp32_html ''swim_pacer.ino'' html_content files of
             (Inl e, files') \<Rightarrow>
               ([Extracting, Extracted (length html_content), Updating, Failed e], 1, files')
           | (Inr u, files') \<Rightarrow>
               ([Extracting, Extracted (length html_content), Updating, Updated,
                 ShouldBeSynchronized], 0, files')))\<close>


section \<open>Occurrences of a token in a document\<close>

text \<open>
  \<open>occurs_at sub s k\<close>: the text \<open>sub\<close> stands in \<open>s\<close> at index \<open>k\<close>.
  \<open>first_at sub s n k\<close>: \<open>k\<close> is the lowest index at or after \<open>n\<close> where it stands.
  \<open>absent_from sub s n\<close>: it stands nowhere at or after \<open>n\<close>.
\<close>

definition occurs_at :: \<open>string \<Rightarrow> string \<Rightarrow> nat \<Rightarrow> bool\<close> where
  \<open>occurs_at sub s k \<longleftrightarrow> k \<le> length s \<and> prefix sub (drop k s)\<close>

definition first_at :: \<open>string \<Rightarrow> string \<Rightarrow> nat \<Rightarrow> nat \<Rightarrow> bool\<close> where
  \<open>first_at sub s n k \<longleftrightarrow>
     n \<le> k \<and> occurs_at sub s k \<and> (\<forall>j\<in>{n..<k}. \<not> occurs_at sub s j)\<close>

definition absent_from :: \<open>string \<Rightarrow> string \<Rightarrow> nat \<Rightarrow> bool\<close> where
  \<open>absent_from sub s n \<longleftrightarrow> (\<forall>j\<in>{n..length s}. \<not> occurs_at sub s j)\<close>


text \<open>
  The tokens of the firmware convention: the handler's opening brace, the opening of the
  raw string literal, its closing token with the statement terminator, and the same
  followed by a line break.
\<close>

definition handler_open :: string where
  \<open>handler_open = ''void handleRoot() {''\<close>

definition literal_open :: string where
  \<open>literal_open = ''String html = R"(''\<close>

definition literal_close :: string where
  \<open>literal_close = '')";''\<close>

definition literal_close_nl :: string where
  \<open>literal_close_nl = '')";\<newline>''\<close>

section \<open>Example documents\<close>

text \<open>
  Small documents on which the theorems below are instantiated: a standalone file that
  ends in a line break, and firmware files that hold nothing but the literal.
\<close>

definition standalone_x :: string where
  \<open>standalone_x = ''x\<newline>''\<close>

definition ino_minimal :: string where
  \<open>ino_minimal = literal_open @ end_marker @ literal_close_nl\<close>

definition ino_no_newline :: string where
  \<open>ino_no_newline = literal_open @ end_marker @ literal_close\<close>

definition ino_trailing_comment :: string where
  \<open>ino_trailing_comment = literal_open @ end_marker @ literal_close @ '' // page''\<close>

definition ino_no_marker :: string where
  \<open>ino_no_marker = literal_open @ ''<p>x</p>'' @ literal_close_nl\<close>

definition files_x :: fs where
  \<open>files_x = [''config_interface.html'' \<mapsto> standalone_x, ''swim_pacer.ino'' \<mapsto> ino_minimal]\<close>

definition files_no_marker :: fs where
  \<open>files_no_marker = [''swim_pacer.ino'' \<mapsto> ino_no_marker]\<close>

definition files_no_newline :: fs where
  \<open>files_no_newline = [''swim_pacer.ino'' \<mapsto> ino_no_newline]\<close>

definition files_trailing_comment :: fs where
  \<open>files_trailing_comment = [''swim_pacer.ino'' \<mapsto> ino_trailing_comment]\<close>

definition standalone_hi :: string where
  \<open>standalone_hi =
     ''<html>\<newline>'' @ start_marker @ ''\<newline><div>Hi</div>\<newline>'' @ end_marker @
     ''\<newline></html>\<newline>''\<close>

definition files_hi :: fs where
  \<open>files_hi = [''config_interface.html'' \<mapsto> standalone_hi]\<close>

definition ino_hello :: string where
  \<open>ino_hello = handler_open @ '' '' @ literal_open @ ''<div>Hello</div>'' @ literal_close @ '' }''\<close>

definition ino_hi_more :: string where
  \<open>ino_hi_more = handler_open @ '' '' @ literal_open @ ''<div>Hi</div><p>'' @ literal_close @ '' }''\<close>

definition files_hello :: fs where
  \<open>files_hello = [''config_interface.html'' \<mapsto> standalone_hi, ''swim_pacer.ino'' \<mapsto> ino_hello]\<close>

definition files_hi_more :: fs where
  \<open>files_hi_more =
     [''config_interface.html'' \<mapsto> standalone_hi, ''swim_pacer.ino'' \<mapsto> ino_hi_more]\<close>

definition ino_two_literals :: string where
  \<open>ino_two_literals =
     handler_open @ '' '' @ literal_open @ ''  <p>a</p> '' @ literal_close @ '' '' @
     literal_open @ ''<p>b</p>'' @ literal_close\<close>

definition files_two_literals :: fs where
  \<open>files_two_literals = [''swim_pacer.ino'' \<mapsto> ino_two_literals]\<close>

definition files_hi_minimal :: fs where
  \<open>files_hi_minimal =
     [''config_interface.html'' \<mapsto> standalone_hi, ''swim_pacer.ino'' \<mapsto> ino_minimal]\<close>

definition ino_handler :: string where
  \<open>ino_handler =
     handler_open @ ''\<newline>'' @ literal_open @ ''old'' @ end_marker @ literal_close_nl @ ''}''\<close>

definition files_x_handler :: fs where
  \<open>files_x_handler =
     [''config_interface.html'' \<mapsto> standalone_x, ''swim_pacer.ino'' \<mapsto> ino_handler]\<close>


section \<open>Normal forms of the whitespace stages\<close>

text \<open>
  Two predicates for the proofs about the normalizer.  A text is \<open>single_spaced\<close> when
  its only whitespace character is the space and no two of them are adjacent: the texts
  that \<^verbatim>\<open>\s+\<close> \<open>\<rightarrow>\<close> space leaves alone.  A text is \<open>gap_free\<close> when nowhere in it a
  \<open>>\<close> is followed by whitespace and then \<open><\<close>: the texts that \<^verbatim>\<open>>\s+<\<close> \<open>\<rightarrow>\<close> \<open>><\<close>
  leaves alone.
\<close>

fun single_spaced :: \<open>string \<Rightarrow> bool\<close> where
  \<open>single_spaced [] = True\<close>
| \<open>single_spaced (x # xs) =
     ((is_space x \<longrightarrow> x = CHR '' '' \<and> (xs = [] \<or> \<not> is_space (hd xs))) \<and> single_spaced xs)\<close>

definition gapped :: \<open>string \<Rightarrow> bool\<close> where
  \<open>gapped cs \<longleftrightarrow> cs \<noteq> [] \<and> is_space (hd cs) \<and> prefix ''<'' (dropWhile is_space cs)\<close>

fun gap_free :: \<open>string \<Rightarrow> bool\<close> where
  \<open>gap_free [] = True\<close>
| \<open>gap_free (c # cs) = (\<not> (c = CHR ''>'' \<and> gapped cs) \<and> gap_free cs)\<close>

section \<open>Searching for a token\<close>

lemma occurs_at_0: \<open>occurs_at sub s 0 \<longleftrightarrow> prefix sub s\<close>
  by (simp add: occurs_at_def)

lemma occurs_at_Suc: \<open>occurs_at sub (x # xs) (Suc j) \<longleftrightarrow> occurs_at sub xs j\<close>
  by (simp add: occurs_at_def)

lemma occurs_at_le: \<open>occurs_at sub s k \<Longrightarrow> k + length sub \<le> length s\<close>
proof -
  assume \<open>occurs_at sub s k\<close>
  then obtain v where k: \<open>k \<le> length s\<close> and d: \<open>drop k s = sub @ v\<close>
    by (auto simp: occurs_at_def prefix_def)
  from d have \<open>length (drop k s) = length sub + length v\<close> by simp
  with k show ?thesis by simp
qed

lemma occurs_at_iff: \<open>occurs_at sub s k \<longleftrightarrow> (\<exists>u v. s = u @ sub @ v \<and> length u = k)\<close>
proof
  assume \<open>occurs_at sub s k\<close>
  then obtain v where \<open>k \<le> length s\<close> \<open>drop k s = sub @ v\<close>
    by (auto simp: occurs_at_def prefix_def)
  then have \<open>s = take k s @ sub @ v \<and> length (take k s) = k\<close>
    by (metis append_take_drop_id length_take min.absorb2)
  then show \<open>\<exists>u v. s = u @ sub @ v \<and> length u = k\<close> by blast
next
  assume \<open>\<exists>u v. s = u @ sub @ v \<and> length u = k\<close>
  then show \<open>occurs_at sub s k\<close> by (auto simp: occurs_at_def)
qed

lemma find_at_shift: \<open>find_at sub s i = map_option (\<lambda>k. k + i) (find_at sub s 0)\<close>
proof (induction s arbitrary: i)
  case Nil
  show ?case by simp
next
  case (Cons x xs)
  have \<open>find_at sub xs (Suc i) = map_option (\<lambda>k. k + Suc i) (find_at sub xs 0)\<close>
    by (rule Cons.IH)
  moreover have \<open>find_at sub xs (Suc 0) = map_option (\<lambda>k. k + Suc 0) (find_at sub xs 0)\<close>
    by (rule Cons.IH)
  ultimately show ?case
    by (simp add: option.map_comp comp_def)
qed

lemma find_at_None: \<open>find_at sub s i = None \<longleftrightarrow> (\<forall>j. \<not> occurs_at sub s j)\<close>
proof (induction s arbitrary: i)
  case Nil
  show ?case by (auto simp: occurs_at_def)
next
  case (Cons x xs)
  show ?case
  proof (cases \<open>prefix sub (x # xs)\<close>)
    case True
    then have \<open>occurs_at sub (x # xs) 0\<close> by (simp add: occurs_at_0)
    with True show ?thesis by auto
  next
    case False
    have \<open>(\<forall>j. \<not> occurs_at sub (x # xs) j) \<longleftrightarrow> (\<forall>j. \<not> occurs_at sub xs j)\<close>
    proof
      assume a: \<open>\<forall>j. \<not> occurs_at sub (x # xs) j\<close>
      show \<open>\<forall>j. \<not> occurs_at sub xs j\<close>
      proof
        fix j
        from a have \<open>\<not> occurs_at sub (x # xs) (Suc j)\<close> by blast
        then show \<open>\<not> occurs_at sub xs j\<close> by (simp add: occurs_at_Suc)
      qed
    next
      assume a: \<open>\<forall>j. \<not> occurs_at sub xs j\<close>
      show \<open>\<forall>j. \<not> occurs_at sub (x # xs) j\<close>
      proof
        fix j
        show \<open>\<not> occurs_at sub (x # xs) j\<close>
          using a False by (cases j) (simp_all add: occurs_at_0 occurs_at_Suc)
      qed
    qed
    with False Cons.IH show ?thesis by simp
  qed
qed

lemma find_at_0_Some: \<open>find_at sub s 0 = Some k \<longleftrightarrow> first_at sub s 0 k\<close>
proof (induction s arbitrary: k)
  case Nil
  show ?case by (auto simp: first_at_def occurs_at_def)
next
  case (Cons x xs)
  show ?case
  proof (cases \<open>prefix sub (x # xs)\<close>)
    case True
    then have o: \<open>occurs_at sub (x # xs) 0\<close> by (simp add: occurs_at_0)
    have \<open>first_at sub (x # xs) 0 k \<longleftrightarrow> k = 0\<close>
      using o by (cases k) (auto simp: first_at_def)
    with True show ?thesis by auto
  next
    case False
    then have no: \<open>\<not> occurs_at sub (x # xs) 0\<close> by (simp add: occurs_at_0)
    have \<open>first_at sub (x # xs) 0 k \<longleftrightarrow> (\<exists>k'. k = Suc k' \<and> first_at sub xs 0 k')\<close>
    proof (cases k)
      case 0
      with no show ?thesis by (simp add: first_at_def)
    next
      case (Suc k')
      have \<open>(\<forall>j\<in>{0..<Suc k'}. \<not> occurs_at sub (x # xs) j) \<longleftrightarrow> (\<forall>j\<in>{0..<k'}. \<not> occurs_at sub xs j)\<close>
      proof
        assume a: \<open>\<forall>j\<in>{0..<Suc k'}. \<not> occurs_at sub (x # xs) j\<close>
        show \<open>\<forall>j\<in>{0..<k'}. \<not> occurs_at sub xs j\<close>
        proof
          fix j assume \<open>j \<in> {0..<k'}\<close>
          then have \<open>Suc j \<in> {0..<Suc k'}\<close> by simp
          with a have \<open>\<not> occurs_at sub (x # xs) (Suc j)\<close> by blast
          then show \<open>\<not> occurs_at sub xs j\<close> by (simp add: occurs_at_Suc)
        qed
      next
        assume a: \<open>\<forall>j\<in>{0..<k'}. \<not> occurs_at sub xs j\<close>
        show \<open>\<forall>j\<in>{0..<Suc k'}. \<not> occurs_at sub (x # xs) j\<close>
        proof
          fix j assume j: \<open>j \<in> {0..<Suc k'}\<close>
          show \<open>\<not> occurs_at sub (x # xs) j\<close>
            using a j no by (cases j) (auto simp: occurs_at_Suc)
        qed
      qed
      with Suc show ?thesis by (simp add: first_at_def occurs_at_Suc)
    qed
    moreover have \<open>find_at sub (x # xs) 0 = map_option Suc (find_at sub xs 0)\<close>
      using False find_at_shift[of sub xs \<open>Suc 0\<close>] by simp
    ultimately show ?thesis using Cons.IH by auto
  qed
qed

lemma occurs_at_drop:
  \<open>n \<le> length s \<Longrightarrow> occurs_at sub (drop n s) j \<longleftrightarrow> occurs_at sub s (n + j)\<close>
  by (auto simp: occurs_at_def add.commute)

lemma first_at_drop:
  assumes \<open>n \<le> length s\<close>
  shows \<open>first_at sub (drop n s) 0 j \<longleftrightarrow> first_at sub s n (n + j)\<close>
proof -
  have \<open>(\<forall>i\<in>{0..<j}. \<not> occurs_at sub (drop n s) i) \<longleftrightarrow> (\<forall>i\<in>{n..<n + j}. \<not> occurs_at sub s i)\<close>
  proof
    assume a: \<open>\<forall>i\<in>{0..<j}. \<not> occurs_at sub (drop n s) i\<close>
    show \<open>\<forall>i\<in>{n..<n + j}. \<not> occurs_at sub s i\<close>
    proof
      fix i assume i: \<open>i \<in> {n..<n + j}\<close>
      then have \<open>i - n \<in> {0..<j}\<close> by auto
      with a have \<open>\<not> occurs_at sub (drop n s) (i - n)\<close> by blast
      with assms i show \<open>\<not> occurs_at sub s i\<close> by (simp add: occurs_at_drop)
    qed
  next
    assume a: \<open>\<forall>i\<in>{n..<n + j}. \<not> occurs_at sub s i\<close>
    show \<open>\<forall>i\<in>{0..<j}. \<not> occurs_at sub (drop n s) i\<close>
    proof
      fix i assume \<open>i \<in> {0..<j}\<close>
      then have \<open>n + i \<in> {n..<n + j}\<close> by simp
      with a have \<open>\<not> occurs_at sub s (n + i)\<close> by blast
      with assms show \<open>\<not> occurs_at sub (drop n s) i\<close> by (simp add: occurs_at_drop)
    qed
  qed
  with assms show ?thesis by (simp add: first_at_def occurs_at_drop)
qed

lemma find_at_drop_Some:
  assumes \<open>n \<le> length s\<close>
  shows \<open>find_at sub (drop n s) n = Some k \<longleftrightarrow> first_at sub s n k\<close>
proof -
  have \<open>find_at sub (drop n s) n = Some k \<longleftrightarrow> (\<exists>j. k = j + n \<and> first_at sub (drop n s) 0 j)\<close>
    by (subst find_at_shift) (auto simp: find_at_0_Some)
  also have \<open>\<dots> \<longleftrightarrow> (\<exists>j. k = n + j \<and> first_at sub s n (n + j))\<close>
    using assms by (simp add: first_at_drop add.commute)
  also have \<open>\<dots> \<longleftrightarrow> first_at sub s n k\<close>
  proof
    assume \<open>\<exists>j. k = n + j \<and> first_at sub s n (n + j)\<close>
    then show \<open>first_at sub s n k\<close> by auto
  next
    assume f: \<open>first_at sub s n k\<close>
    then have \<open>n \<le> k\<close> by (simp add: first_at_def)
    then have \<open>k = n + (k - n)\<close> by simp
    with f show \<open>\<exists>j. k = n + j \<and> first_at sub s n (n + j)\<close> by metis
  qed
  finally show ?thesis .
qed

lemma absent_from_iff: \<open>absent_from sub s n \<longleftrightarrow> (\<forall>j\<ge>n. \<not> occurs_at sub s j)\<close>
  by (auto simp: absent_from_def occurs_at_def)

lemma find_at_drop_None:
  assumes \<open>n \<le> length s\<close>
  shows \<open>find_at sub (drop n s) n = None \<longleftrightarrow> absent_from sub s n\<close>
proof -
  have \<open>find_at sub (drop n s) n = None \<longleftrightarrow> (\<forall>j. \<not> occurs_at sub (drop n s) j)\<close>
    by (rule find_at_None)
  also have \<open>\<dots> \<longleftrightarrow> (\<forall>j. \<not> occurs_at sub s (n + j))\<close>
    using assms by (simp add: occurs_at_drop)
  also have \<open>\<dots> \<longleftrightarrow> (\<forall>j\<ge>n. \<not> occurs_at sub s j)\<close>
    by (metis le_add1 le_Suc_ex)
  finally show ?thesis by (simp add: absent_from_iff)
qed

lemma first_at_unique: \<open>first_at sub s n k \<Longrightarrow> first_at sub s n k' \<Longrightarrow> k = k'\<close>
  unfolding first_at_def by (metis atLeastLessThan_iff linorder_neqE_nat)

lemma first_at_not_absent: \<open>first_at sub s n k \<Longrightarrow> \<not> absent_from sub s n\<close>
  by (auto simp: first_at_def absent_from_iff)

lemma absent_or_first: \<open>absent_from sub s n \<or> (\<exists>k. first_at sub s n k)\<close>
proof (cases \<open>n \<le> length s\<close>)
  case True
  then show ?thesis
    using find_at_drop_None[of n s sub] find_at_drop_Some[of n s sub]
    by (cases \<open>find_at sub (drop n s) n\<close>) auto
next
  case False
  then show ?thesis by (simp add: absent_from_def)
qed

lemma clip_nat [simp]: \<open>clip n (int k) = min n k\<close>
  by (simp add: clip_def)

lemma str_find_nat:
  \<open>str_find s sub (int n) =
     (if length s < n then - 1
      else case find_at sub (drop n s) n of None \<Rightarrow> - 1 | Some k \<Rightarrow> int k)\<close>
  by (simp add: str_find_def min_def)

lemma str_find_absent: \<open>str_find s sub (int n) = - 1 \<longleftrightarrow> absent_from sub s n\<close>
proof (cases \<open>n \<le> length s\<close>)
  case True
  then show ?thesis
    using find_at_drop_None[of n s sub]
    by (auto simp: str_find_nat split: option.splits)
next
  case False
  then show ?thesis by (simp add: str_find_nat absent_from_def)
qed

lemma str_find_first: \<open>str_find s sub (int n) = int k \<longleftrightarrow> first_at sub s n k\<close>
proof (cases \<open>n \<le> length s\<close>)
  case True
  then show ?thesis
    using find_at_drop_Some[of n s sub k]
    by (auto simp: str_find_nat split: option.splits)
next
  case False
  then have \<open>\<not> first_at sub s n k\<close> by (auto simp: first_at_def occurs_at_def)
  with False show ?thesis by (simp add: str_find_nat)
qed

lemma str_find_cases:
  obtains (absent) \<open>str_find s sub (int n) = - 1\<close> \<open>absent_from sub s n\<close>
  | (found) k where \<open>str_find s sub (int n) = int k\<close> \<open>first_at sub s n k\<close>
  using absent_or_first[of sub s n] str_find_absent[of s sub n] str_find_first[of s sub n]
  by blast

lemma rmatch_Lit: \<open>rmatch [Lit l] s i m = (if prefix l s then Some (i + length l, m) else None)\<close>
  by simp

lemma search_at_Lit:
  \<open>search_at [Lit l] s i =
     (case find_at l s i of
        None \<Rightarrow> None
      | Some k \<Rightarrow> Some \<lparr>m_start = k, m_end = k + length l, m_group = (None, None)\<rparr>)\<close>
  by (induction s arbitrary: i) auto

lemma re_search_Lit:
  \<open>re_search [Lit l] s = None \<longleftrightarrow> absent_from l s 0\<close>
  \<open>re_search [Lit l] s = Some mo \<longleftrightarrow>
     (\<exists>k. first_at l s 0 k \<and> mo = \<lparr>m_start = k, m_end = k + length l, m_group = (None, None)\<rparr>)\<close>
proof -
  show \<open>re_search [Lit l] s = None \<longleftrightarrow> absent_from l s 0\<close>
    using find_at_drop_None[of 0 s l]
    by (auto simp: re_search_def search_at_Lit split: option.splits)
  show \<open>re_search [Lit l] s = Some mo \<longleftrightarrow>
     (\<exists>k. first_at l s 0 k \<and> mo = \<lparr>m_start = k, m_end = k + length l, m_group = (None, None)\<rparr>)\<close>
  proof (cases \<open>find_at l s 0\<close>)
    case None
    then have \<open>absent_from l s 0\<close> using find_at_drop_None[of 0 s l] by simp
    then have \<open>\<And>k. \<not> first_at l s 0 k\<close> using first_at_not_absent by blast
    with None show ?thesis by (simp add: re_search_def search_at_Lit)
  next
    case (Some y)
    have \<open>first_at l s 0 k \<longleftrightarrow> k = y\<close> for k
      using Some find_at_drop_Some[of 0 s l k] by auto
    with Some show ?thesis by (auto simp: re_search_def search_at_Lit)
  qed
qed

lemma slice_to_nat [simp]: \<open>slice_to s (int n) = take n s\<close>
  by (simp add: slice_to_def min_def)

lemma slice_from_nat [simp]: \<open>slice_from s (int n) = drop n s\<close>
  by (simp add: slice_from_def min_def)

lemma length_literal_open: \<open>length literal_open = 17\<close>
  by (simp add: literal_open_def)

lemma start_pattern_eq: \<open>start_pattern = [Lit literal_open]\<close>
  by (simp add: start_pattern_def literal_open_def)

lemma update_no_open:
  assumes \<open>files f = Some ino\<close> \<open>absent_from literal_open ino 0\<close>
  shows \<open>update_esp32_html f h files =
           (Inl (ValueError ''Could not find HTML string start in ESP32 file''), files)\<close>
proof -
  have \<open>re_search start_pattern ino = None\<close>
    using assms(2) by (simp add: start_pattern_eq re_search_Lit(1))
  with assms(1) show ?thesis by (simp add: update_esp32_html_def)
qed

lemma update_no_marker:
  assumes \<open>files f = Some ino\<close> \<open>first_at literal_open ino 0 a\<close>
    \<open>absent_from end_marker ino (a + length literal_open)\<close>
  shows \<open>update_esp32_html f h files =
           (Inl (ValueError ''Could not find end marker in ESP32 file''), files)\<close>
proof -
  have \<open>re_search start_pattern ino =
          Some \<lparr>m_start = a, m_end = a + length literal_open, m_group = (None, None)\<rparr>\<close>
    using assms(2) by (simp add: start_pattern_eq re_search_Lit(2))
  moreover have \<open>str_find ino end_marker (int (a + length literal_open)) = - 1\<close>
    using assms(3) by (simp only: str_find_absent)
  ultimately show ?thesis using assms(1)
    by (simp add: update_esp32_html_def del: of_nat_add)
qed

lemma update_no_close:
  assumes \<open>files f = Some ino\<close> \<open>first_at literal_open ino 0 a\<close>
    \<open>first_at end_marker ino (a + length literal_open) e\<close>
    \<open>absent_from literal_close_nl ino e\<close>
  shows \<open>update_esp32_html f h files =
           (Inl (ValueError ''Could not find HTML string end in ESP32 file''), files)\<close>
proof -
  have \<open>re_search start_pattern ino =
          Some \<lparr>m_start = a, m_end = a + length literal_open, m_group = (None, None)\<rparr>\<close>
    using assms(2) by (simp add: start_pattern_eq re_search_Lit(2))
  moreover have \<open>str_find ino end_marker (int (a + length literal_open)) = int e\<close>
    using assms(3) by (simp only: str_find_first)
  moreover have \<open>str_find ino literal_close_nl (int e) = - 1\<close>
    using assms(4) by (simp only: str_find_absent)
  ultimately show ?thesis using assms(1)
    by (simp add: update_esp32_html_def literal_close_nl_def del: of_nat_add)
qed

lemma update_ok:
  assumes \<open>files f = Some ino\<close> \<open>first_at literal_open ino 0 a\<close>
    \<open>first_at end_marker ino (a + length literal_open) e\<close>
    \<open>first_at literal_close_nl ino e c\<close>
  shows \<open>update_esp32_html f h files =
           (Inr (), files(f \<mapsto> take (a + length literal_open) ino @ ''\<newline>'' @ h @
                                 ''\<newline>'' @ drop c ino))\<close>
proof -
  have \<open>re_search start_pattern ino =
          Some \<lparr>m_start = a, m_end = a + length literal_open, m_group = (None, None)\<rparr>\<close>
    using assms(2) by (simp add: start_pattern_eq re_search_Lit(2))
  moreover have \<open>str_find ino end_marker (int (a + length literal_open)) = int e\<close>
    using assms(3) by (simp only: str_find_first)
  moreover have \<open>str_find ino literal_close_nl (int e) = int c\<close>
    using assms(4) by (simp only: str_find_first)
  ultimately show ?thesis using assms(1)
    by (simp add: update_esp32_html_def literal_close_nl_def del: of_nat_add)
qed

lemma update_cases:
  assumes \<open>files f = Some ino\<close>
  obtains
    (no_open) \<open>absent_from literal_open ino 0\<close>
      \<open>update_esp32_html f h files =
         (Inl (ValueError ''Could not find HTML string start in ESP32 file''), files)\<close>
  | (no_marker) a where \<open>first_at literal_open ino 0 a\<close>
      \<open>absent_from end_marker ino (a + length literal_open)\<close>
      \<open>update_esp32_html f h files =
         (Inl (ValueError ''Could not find end marker in ESP32 file''), files)\<close>
  | (no_close) a e where \<open>first_at literal_open ino 0 a\<close>
      \<open>first_at end_marker ino (a + length literal_open) e\<close>
      \<open>absent_from literal_close_nl ino e\<close>
      \<open>update_esp32_html f h files =
         (Inl (ValueError ''Could not find HTML string end in ESP32 file''), files)\<close>
  | (ok) a e c where \<open>first_at literal_open ino 0 a\<close>
      \<open>first_at end_marker ino (a + length literal_open) e\<close>
      \<open>first_at literal_close_nl ino e c\<close>
      \<open>update_esp32_html f h files =
         (Inr (), files(f \<mapsto> take (a + length literal_open) ino @ ''\<newline>'' @ h @
                               ''\<newline>'' @ drop c ino))\<close>
proof -
  consider \<open>absent_from literal_open ino 0\<close>
    | a where \<open>first_at literal_open ino 0 a\<close> \<open>absent_from end_marker ino (a + length literal_open)\<close>
    | a e where \<open>first_at literal_open ino 0 a\<close> \<open>first_at end_marker ino (a + length literal_open) e\<close>
        \<open>absent_from literal_close_nl ino e\<close>
    | a e c where \<open>first_at literal_open ino 0 a\<close> \<open>first_at end_marker ino (a + length literal_open) e\<close>
        \<open>first_at literal_close_nl ino e c\<close>
    using absent_or_first by metis
  then show thesis
  proof cases
    case 1
    then show ?thesis using no_open update_no_open[where files=files and f=f and h=h, OF assms] by blast
  next
    case 2
    then show ?thesis using no_marker update_no_marker[where files=files and f=f and h=h, OF assms] by blast
  next
    case 3
    then show ?thesis using no_close update_no_close[where files=files and f=f and h=h, OF assms] by blast
  next
    case 4
    then show ?thesis using ok update_ok[where files=files and f=f and h=h, OF assms] by blast
  qed
qed

lemma occurs_at_append:
  \<open>occurs_at (u @ v) s j \<longleftrightarrow> occurs_at u s j \<and> occurs_at v s (j + length u)\<close>
proof
  assume \<open>occurs_at (u @ v) s j\<close>
  then obtain p q where s: \<open>s = p @ (u @ v) @ q\<close> and p: \<open>length p = j\<close>
    by (auto simp: occurs_at_iff)
  have \<open>s = p @ u @ (v @ q)\<close> using s by simp
  moreover have \<open>s = (p @ u) @ v @ q\<close> using s by simp
  ultimately show \<open>occurs_at u s j \<and> occurs_at v s (j + length u)\<close>
    using p unfolding occurs_at_iff by (metis length_append)
next
  assume a: \<open>occurs_at u s j \<and> occurs_at v s (j + length u)\<close>
  then obtain p q where s: \<open>s = p @ u @ q\<close> and p: \<open>length p = j\<close>
    by (auto simp: occurs_at_iff)
  from a obtain p' q' where s': \<open>s = p' @ v @ q'\<close> and p': \<open>length p' = j + length u\<close>
    by (auto simp: occurs_at_iff)
  have \<open>p' = p @ u\<close>
    using s s' p p' by (metis append.assoc append_eq_append_conv length_append)
  with s' have \<open>s = p @ (u @ v) @ q'\<close> by simp
  with p show \<open>occurs_at (u @ v) s j\<close> unfolding occurs_at_iff by blast
qed

lemma literal_close_nl_eq: \<open>literal_close_nl = literal_close @ ''\<newline>''\<close>
  by (simp add: literal_close_nl_def literal_close_def)

lemma update_main_ok:
  assumes \<open>update_main files = (printed, 0, files')\<close>
  shows \<open>\<exists>standalone ino a e c.
           files ''config_interface.html'' = Some standalone \<and>
           files ''swim_pacer.ino'' = Some ino \<and>
           first_at literal_open ino 0 a \<and>
           first_at end_marker ino (a + length literal_open) e \<and>
           first_at literal_close_nl ino e c \<and>
           files' = files(''swim_pacer.ino'' \<mapsto>
                      take (a + length literal_open) ino @ ''\<newline>'' @ strip standalone @
                      ''\<newline>'' @ drop c ino)\<close>
proof (cases \<open>files ''config_interface.html''\<close>)
  case None
  with assms show ?thesis
    by (simp add: update_main_def extract_html_content_def)
next
  case (Some standalone)
  then have ex: \<open>extract_html_content ''config_interface.html'' files = Inr (strip standalone)\<close>
    by (simp add: extract_html_content_def)
  show ?thesis
  proof (cases \<open>files ''swim_pacer.ino''\<close>)
    case None
    then have \<open>update_esp32_html ''swim_pacer.ino'' (strip standalone) files =
                 (Inl FileNotFoundError, files)\<close>
      by (simp add: update_esp32_html_def)
    with assms ex show ?thesis by (simp add: update_main_def)
  next
    case ino: (Some ino)
    then show ?thesis
    proof (cases rule: update_cases[where files=files and f=\<open>''swim_pacer.ino''\<close>
          and h=\<open>strip standalone\<close>])
      case no_open
      with assms ex show ?thesis by (simp add: update_main_def)
    next
      case (no_marker a)
      with assms ex show ?thesis by (simp add: update_main_def)
    next
      case (no_close a e)
      with assms ex show ?thesis by (simp add: update_main_def)
    next
      case (ok a e c)
      with assms ex have \<open>files' = files(''swim_pacer.ino'' \<mapsto>
                      take (a + length literal_open) ino @ ''\<newline>'' @ strip standalone @
                      ''\<newline>'' @ drop c ino)\<close>
        by (simp add: update_main_def)
      with Some ino ok(1,2,3) show ?thesis by blast
    qed
  qed
qed

lemma first_atI: \<open>n \<le> length s \<Longrightarrow> find_at sub (drop n s) n = Some k \<Longrightarrow> first_at sub s n k\<close>
  by (simp add: find_at_drop_Some)

lemma absent_fromI: \<open>n \<le> length s \<Longrightarrow> find_at sub (drop n s) n = None \<Longrightarrow> absent_from sub s n\<close>
  by (simp add: find_at_drop_None)

lemmas doc_defs =
  literal_open_def literal_close_def literal_close_nl_def end_marker_def start_marker_def handler_open_def
  standalone_x_def ino_minimal_def ino_no_newline_def ino_no_marker_def
  ino_trailing_comment_def


lemmas eval_defs =
  update_main_def extract_html_content_def update_esp32_html_def re_search_def
  start_pattern_def str_find_def strip_def lstrip_def rstrip_def is_space_def clip_def
  slice_to_def slice_from_def slice_def files_x_def files_no_marker_def files_no_newline_def
  files_trailing_comment_def doc_defs

lemma absent_close_nl_iff:
  \<open>absent_from literal_close_nl s e \<longleftrightarrow>
     (\<forall>j\<ge>e. occurs_at literal_close s j \<longrightarrow>
             \<not> occurs_at ''\<newline>'' s (j + length literal_close))\<close>
  by (simp add: absent_from_iff literal_close_nl_eq occurs_at_append)


section \<open>The standalone extractor\<close>

lemma slice_nonneg:
  \<open>0 \<le> i \<Longrightarrow> 0 \<le> j \<Longrightarrow> slice s i j = take (nat j - nat i) (drop (nat i) s)\<close>
  by (auto simp: slice_def clip_def min_def)

lemma standalone_found:
  assumes \<open>files ''config_interface.html'' = Some content\<close>
    and \<open>first_at start_marker content 0 s\<close>
    and \<open>first_at end_marker content 0 e\<close>
    and \<open>first_at ''\<newline>'' content s n\<close>
  shows \<open>extract_html_from_standalone files =
           ([], Some (strip (take (e - Suc n) (drop (Suc n) content))))\<close>
proof -
  have \<open>str_find content start_marker 0 = int s\<close>
    using assms(2) str_find_first[of content start_marker 0 s] by simp
  moreover have \<open>str_find content end_marker 0 = int e\<close>
    using assms(3) str_find_first[of content end_marker 0 e] by simp
  moreover have \<open>str_find content ''\<newline>'' (int s) = int n\<close>
    using assms(4) by (simp only: str_find_first)
  moreover have \<open>slice content (int n + 1) (int e) = take (e - Suc n) (drop (Suc n) content)\<close>
    by (simp add: slice_nonneg nat_add_distrib)
  ultimately show ?thesis
    using assms(1) by (simp add: extract_html_from_standalone_def)
qed

lemma standalone_no_newline:
  assumes \<open>files ''config_interface.html'' = Some content\<close>
    and \<open>first_at start_marker content 0 s\<close>
    and \<open>first_at end_marker content 0 e\<close>
    and \<open>absent_from ''\<newline>'' content s\<close>
  shows \<open>extract_html_from_standalone files = ([], Some (strip (take e content)))\<close>
proof -
  have \<open>str_find content start_marker 0 = int s\<close>
    using assms(2) str_find_first[of content start_marker 0 s] by simp
  moreover have \<open>str_find content end_marker 0 = int e\<close>
    using assms(3) str_find_first[of content end_marker 0 e] by simp
  moreover have \<open>str_find content ''\<newline>'' (int s) = - 1\<close>
    using assms(4) by (simp only: str_find_absent)
  moreover have \<open>slice content 0 (int e) = take e content\<close>
    by (simp add: slice_nonneg)
  ultimately show ?thesis
    using assms(1) by (simp add: extract_html_from_standalone_def)
qed

lemma standalone_missing:
  assumes \<open>files ''config_interface.html'' = Some content\<close>
    and \<open>absent_from start_marker content 0 \<or> absent_from end_marker content 0\<close>
  shows \<open>extract_html_from_standalone files = ([MarkersNotFound], None)\<close>
proof -
  have \<open>str_find content start_marker 0 = - 1 \<or> str_find content end_marker 0 = - 1\<close>
    using assms(2) str_find_absent[of content start_marker 0]
      str_find_absent[of content end_marker 0] by simp
  then show ?thesis
    using assms(1) by (auto simp: extract_html_from_standalone_def Let_def)
qed


section \<open>The comparator\<close>

lemma first_difference_none:
  assumes \<open>\<forall>j<min (length xs) (length ys). xs ! j = ys ! j\<close>
  shows \<open>show_first_difference ns ni (enumerate k (zip xs ys)) = []\<close>
  using assms
proof (induction xs arbitrary: ys k)
  case Nil
  show ?case by simp
next
  case (Cons x xs)
  show ?case
  proof (cases ys)
    case Nil
    then show ?thesis by simp
  next
    case ys: (Cons y ys')
    from Cons.prems ys have \<open>x = y\<close> by auto
    moreover have \<open>\<forall>j<min (length xs) (length ys'). xs ! j = ys' ! j\<close>
    proof (intro allI impI)
      fix j assume \<open>j < min (length xs) (length ys')\<close>
      then have \<open>Suc j < min (length (x # xs)) (length ys)\<close> using ys by simp
      with Cons.prems have \<open>(x # xs) ! Suc j = ys ! Suc j\<close> by blast
      then show \<open>xs ! j = ys' ! j\<close> using ys by simp
    qed
    ultimately show ?thesis using ys Cons.IH[of ys' \<open>Suc k\<close>] by simp
  qed
qed

lemma first_difference_at:
  assumes \<open>d < min (length xs) (length ys)\<close> \<open>xs ! d \<noteq> ys ! d\<close> \<open>\<forall>j<d. xs ! j = ys ! j\<close>
  shows \<open>show_first_difference ns ni (enumerate k (zip xs ys)) =
           [FirstDifference (k + d),
            StandaloneContext (slice ns (max 0 (int (k + d) - 50))
                                 (min (int (length ns)) (int (k + d) + 50))),
            InoContext (slice ni (max 0 (int (k + d) - 50))
                          (min (int (length ns)) (int (k + d) + 50)))]\<close>
  using assms
proof (induction xs arbitrary: ys k d)
  case Nil
  then show ?case by simp
next
  case (Cons x xs)
  from Cons.prems(1) obtain y ys' where ys: \<open>ys = y # ys'\<close> by (cases ys) auto
  show ?case
  proof (cases d)
    case 0
    with Cons.prems ys show ?thesis by (simp add: Let_def)
  next
    case (Suc d')
    from Cons.prems(3) Suc have \<open>(x # xs) ! 0 = ys ! 0\<close> by blast
    with ys have xy: \<open>x = y\<close> by simp
    have 1: \<open>d' < min (length xs) (length ys')\<close> using Cons.prems(1) ys Suc by simp
    have 2: \<open>xs ! d' \<noteq> ys' ! d'\<close> using Cons.prems(2) ys Suc by simp
    have 3: \<open>\<forall>j<d'. xs ! j = ys' ! j\<close>
    proof (intro allI impI)
      fix j assume \<open>j < d'\<close>
      then have \<open>Suc j < d\<close> using Suc by simp
      with Cons.prems(3) have \<open>(x # xs) ! Suc j = ys ! Suc j\<close> by blast
      then show \<open>xs ! j = ys' ! j\<close> using ys by simp
    qed
    from Cons.IH[OF 1 2 3, of \<open>Suc k\<close>] xy ys Suc show ?thesis by simp
  qed
qed

lemma window_standalone:
  \<open>slice ns (max 0 (int i - 50)) (min (int (length ns)) (int i + 50)) =
     drop (i - 50) (take (i + 50) ns)\<close>
proof -
  have \<open>slice ns (max 0 (int i - 50)) (min (int (length ns)) (int i + 50)) =
          take (min (length ns) (i + 50) - (i - 50)) (drop (i - 50) ns)\<close>
    by (simp add: slice_nonneg nat_diff_distrib' nat_add_distrib min_def max_def)
  also have \<open>\<dots> = drop (i - 50) (take (i + 50) ns)\<close>
    by (simp add: drop_take min_def)
  finally show ?thesis .
qed

lemma window_ino:
  \<open>slice ni (max 0 (int i - 50)) (min (int (length ns)) (int i + 50)) =
     drop (i - 50) (take (min (length ns) (i + 50)) ni)\<close>
proof -
  have \<open>slice ni (max 0 (int i - 50)) (min (int (length ns)) (int i + 50)) =
          take (min (length ns) (i + 50) - (i - 50)) (drop (i - 50) ni)\<close>
    by (simp add: slice_nonneg nat_diff_distrib' nat_add_distrib min_def max_def)
  also have \<open>\<dots> = drop (i - 50) (take (min (length ns) (i + 50)) ni)\<close>
    by (simp add: drop_take)
  finally show ?thesis .
qed

lemmas check_defs =
  extract_html_from_standalone_def extract_html_from_ino_def normalize_html_def
  ino_pattern_def comment_pattern_def spaces_pattern_def gap_pattern_def group1_def re_sub.simps
  re_search_def str_find_def strip_def lstrip_def rstrip_def is_space_def clip_def slice_def
  standalone_hi_def files_hi_def ino_hello_def ino_hi_more_def files_hello_def files_hi_more_def
  doc_defs

lemma differ_cases:
  assumes \<open>xs \<noteq> ys\<close>
  shows \<open>(\<exists>d<min (length xs) (length ys). xs ! d \<noteq> ys ! d \<and> (\<forall>j<d. xs ! j = ys ! j)) \<or>
         strict_prefix xs ys \<or> strict_prefix ys xs\<close>
  using assms
proof (induction xs arbitrary: ys)
  case Nil
  then show ?case by (cases ys) auto
next
  case (Cons x xs)
  show ?case
  proof (cases ys)
    case Nil
    then show ?thesis by simp
  next
    case ys: (Cons y ys')
    show ?thesis
    proof (cases \<open>x = y\<close>)
      case False
      then have \<open>0 < min (length (x # xs)) (length ys) \<and> (x # xs) ! 0 \<noteq> ys ! 0 \<and>
                 (\<forall>j<0. (x # xs) ! j = ys ! j)\<close>
        using ys by simp
      then show ?thesis by blast
    next
      case True
      with Cons.prems ys have \<open>xs \<noteq> ys'\<close> by simp
      from Cons.IH[OF this] consider
        d where \<open>d < min (length xs) (length ys')\<close> \<open>xs ! d \<noteq> ys' ! d\<close> \<open>\<forall>j<d. xs ! j = ys' ! j\<close>
        | \<open>strict_prefix xs ys'\<close> | \<open>strict_prefix ys' xs\<close>
        by blast
      then show ?thesis
      proof cases
        case 1
        have \<open>\<forall>j<Suc d. (x # xs) ! j = ys ! j\<close>
        proof (intro allI impI)
          fix j assume \<open>j < Suc d\<close>
          then show \<open>(x # xs) ! j = ys ! j\<close>
            using 1(3) True ys by (cases j) auto
        qed
        moreover have \<open>Suc d < min (length (x # xs)) (length ys)\<close> using 1(1) ys by simp
        moreover have \<open>(x # xs) ! Suc d \<noteq> ys ! Suc d\<close> using 1(2) ys by simp
        ultimately show ?thesis by blast
      next
        case 2
        then show ?thesis using True ys by (simp add: strict_prefix_def)
      next
        case 3
        then show ?thesis using True ys by (simp add: strict_prefix_def)
      qed
    qed
  qed
qed

lemma strict_prefix_agree:
  assumes \<open>strict_prefix xs ys \<or> strict_prefix ys xs\<close>
  shows \<open>\<forall>j<min (length xs) (length ys). xs ! j = ys ! j\<close>
  using assms by (auto simp: strict_prefix_def prefix_def nth_append)

lemma compare_mismatch:
  fixes files :: fs
  assumes \<open>extract_html_from_standalone files = (out1, Some standalone_html)\<close>
    and \<open>extract_html_from_ino files = (out2, Some ino_html)\<close>
    and ns: \<open>ns = normalize_html standalone_html\<close>
    and ni: \<open>ni = normalize_html ino_html\<close>
    and \<open>ns \<noteq> ni\<close>
  shows \<open>snd (compare_html files) = False \<and>
         (\<forall>i. i < min (length ns) (length ni) \<and> ns ! i \<noteq> ni ! i \<and> (\<forall>j<i. ns ! j = ni ! j) \<longrightarrow>
            fst (compare_html files) =
              [Checking, Rule] @ out1 @ out2 @
              [NotSynchronized, StandaloneLength (length ns), InoLength (length ni),
               FirstDifference i,
               StandaloneContext (drop (i - 50) (take (i + 50) ns)),
               InoContext (drop (i - 50) (take (min (length ns) (i + 50)) ni))]) \<and>
         (strict_prefix ns ni \<or> strict_prefix ni ns \<longrightarrow>
            fst (compare_html files) =
              [Checking, Rule] @ out1 @ out2 @
              [NotSynchronized, StandaloneLength (length ns), InoLength (length ni)]) \<and>
         ((\<exists>i<min (length ns) (length ni). ns ! i \<noteq> ni ! i \<and> (\<forall>j<i. ns ! j = ni ! j)) \<or>
          strict_prefix ns ni \<or> strict_prefix ni ns)\<close>
proof -
  have cmp: \<open>compare_html files =
      ([Checking, Rule] @ out1 @ out2 @
       [NotSynchronized, StandaloneLength (length ns), InoLength (length ni)] @
       show_first_difference ns ni (enumerate 0 (zip ns ni)), False)\<close>
    using assms(1,2,5) unfolding ns ni by (simp add: compare_html_def Let_def)
  have 1: \<open>snd (compare_html files) = False\<close> by (simp add: cmp)
  have 2: \<open>fst (compare_html files) =
              [Checking, Rule] @ out1 @ out2 @
              [NotSynchronized, StandaloneLength (length ns), InoLength (length ni),
               FirstDifference i,
               StandaloneContext (drop (i - 50) (take (i + 50) ns)),
               InoContext (drop (i - 50) (take (min (length ns) (i + 50)) ni))]\<close>
    if \<open>i < min (length ns) (length ni) \<and> ns ! i \<noteq> ni ! i \<and> (\<forall>j<i. ns ! j = ni ! j)\<close> for i
    using first_difference_at[of i ns ni ns ni 0] that
    by (simp add: cmp window_standalone window_ino)
  have 3: \<open>fst (compare_html files) =
              [Checking, Rule] @ out1 @ out2 @
              [NotSynchronized, StandaloneLength (length ns), InoLength (length ni)]\<close>
    if \<open>strict_prefix ns ni \<or> strict_prefix ni ns\<close>
    using first_difference_none[OF strict_prefix_agree[OF that], of ns ni 0]
    by (simp add: cmp)
  from 1 2 3 differ_cases[OF assms(5)] show ?thesis by blast
qed


section \<open>The matcher on lazy and greedy repetitions\<close>

lemma lazy_any_Some:
  \<open>rmatch (Lazy AnyChar # p) s i m = Some r \<longleftrightarrow>
     (\<exists>k\<le>length s. rmatch p (drop k s) (i + k) m = Some r \<and>
        (\<forall>j<k. rmatch p (drop j s) (i + j) m = None))\<close>
proof (induction s arbitrary: i)
  case Nil
  show ?case by simp
next
  case (Cons x xs)
  show ?case
  proof (cases \<open>rmatch p (x # xs) i m\<close>)
    case (Some r')
    have \<open>(\<exists>k\<le>length (x # xs). rmatch p (drop k (x # xs)) (i + k) m = Some r \<and>
            (\<forall>j<k. rmatch p (drop j (x # xs)) (i + j) m = None)) \<longleftrightarrow> r' = r\<close>
    proof
      assume \<open>\<exists>k\<le>length (x # xs). rmatch p (drop k (x # xs)) (i + k) m = Some r \<and>
            (\<forall>j<k. rmatch p (drop j (x # xs)) (i + j) m = None)\<close>
      then obtain k where k: \<open>rmatch p (drop k (x # xs)) (i + k) m = Some r\<close>
        \<open>\<forall>j<k. rmatch p (drop j (x # xs)) (i + j) m = None\<close> by blast
      have \<open>k = 0\<close>
      proof (rule ccontr)
        assume \<open>k \<noteq> 0\<close>
        then have \<open>rmatch p (drop 0 (x # xs)) (i + 0) m = None\<close> using k(2) by blast
        with Some show False by simp
      qed
      with k(1) Some show \<open>r' = r\<close> by simp
    next
      assume \<open>r' = r\<close>
      with Some have \<open>rmatch p (drop 0 (x # xs)) (i + 0) m = Some r \<and>
            (\<forall>j<0. rmatch p (drop j (x # xs)) (i + j) m = None)\<close> by simp
      then show \<open>\<exists>k\<le>length (x # xs). rmatch p (drop k (x # xs)) (i + k) m = Some r \<and>
            (\<forall>j<k. rmatch p (drop j (x # xs)) (i + j) m = None)\<close> by blast
    qed
    with Some show ?thesis by simp
  next
    case None
    have \<open>(\<exists>k\<le>length (x # xs). rmatch p (drop k (x # xs)) (i + k) m = Some r \<and>
            (\<forall>j<k. rmatch p (drop j (x # xs)) (i + j) m = None)) \<longleftrightarrow>
          (\<exists>k\<le>length xs. rmatch p (drop k xs) (Suc i + k) m = Some r \<and>
            (\<forall>j<k. rmatch p (drop j xs) (Suc i + j) m = None))\<close>
      (is \<open>?L \<longleftrightarrow> ?R\<close>)
    proof
      assume ?L
      then obtain k where k: \<open>k \<le> length (x # xs)\<close>
        \<open>rmatch p (drop k (x # xs)) (i + k) m = Some r\<close>
        \<open>\<forall>j<k. rmatch p (drop j (x # xs)) (i + j) m = None\<close> by blast
      from k(2) None obtain k' where k': \<open>k = Suc k'\<close> by (cases k) auto
      have \<open>\<forall>j<k'. rmatch p (drop j xs) (Suc i + j) m = None\<close>
      proof (intro allI impI)
        fix j assume \<open>j < k'\<close>
        then have \<open>Suc j < k\<close> using k' by simp
        with k(3) have \<open>rmatch p (drop (Suc j) (x # xs)) (i + Suc j) m = None\<close> by blast
        then show \<open>rmatch p (drop j xs) (Suc i + j) m = None\<close> by simp
      qed
      with k k' show ?R by auto
    next
      assume ?R
      then obtain k where k: \<open>k \<le> length xs\<close>
        \<open>rmatch p (drop k xs) (Suc i + k) m = Some r\<close>
        \<open>\<forall>j<k. rmatch p (drop j xs) (Suc i + j) m = None\<close> by blast
      have \<open>\<forall>j<Suc k. rmatch p (drop j (x # xs)) (i + j) m = None\<close>
      proof (intro allI impI)
        fix j assume j: \<open>j < Suc k\<close>
        show \<open>rmatch p (drop j (x # xs)) (i + j) m = None\<close>
        proof (cases j)
          case 0
          with None show ?thesis by simp
        next
          case (Suc j')
          with j k(3) have \<open>rmatch p (drop j' xs) (Suc i + j') m = None\<close> by simp
          with Suc show ?thesis by simp
        qed
      qed
      moreover have \<open>rmatch p (drop (Suc k) (x # xs)) (i + Suc k) m = Some r\<close>
        using k(2) by simp
      moreover have \<open>Suc k \<le> length (x # xs)\<close> using k(1) by simp
      ultimately show ?L by blast
    qed
    with None Cons.IH[of \<open>Suc i\<close>] show ?thesis by simp
  qed
qed

lemma lazy_any_None:
  \<open>rmatch (Lazy AnyChar # p) s i m = None \<longleftrightarrow>
     (\<forall>k\<le>length s. rmatch p (drop k s) (i + k) m = None)\<close>
proof (induction s arbitrary: i)
  case Nil
  show ?case by simp
next
  case (Cons x xs)
  have \<open>(\<forall>k\<le>length (x # xs). rmatch p (drop k (x # xs)) (i + k) m = None) \<longleftrightarrow>
        rmatch p (x # xs) i m = None \<and>
        (\<forall>k\<le>length xs. rmatch p (drop k xs) (Suc i + k) m = None)\<close>
    (is \<open>?L \<longleftrightarrow> ?A \<and> ?R\<close>)
  proof
    assume l: ?L
    then have \<open>rmatch p (drop 0 (x # xs)) (i + 0) m = None\<close> by blast
    then have ?A by simp
    moreover have ?R
    proof (intro allI impI)
      fix k assume \<open>k \<le> length xs\<close>
      then have \<open>Suc k \<le> length (x # xs)\<close> by simp
      with l have \<open>rmatch p (drop (Suc k) (x # xs)) (i + Suc k) m = None\<close> by blast
      then show \<open>rmatch p (drop k xs) (Suc i + k) m = None\<close> by simp
    qed
    ultimately show \<open>?A \<and> ?R\<close> by blast
  next
    assume ar: \<open>?A \<and> ?R\<close>
    show ?L
    proof (intro allI impI)
      fix k assume k: \<open>k \<le> length (x # xs)\<close>
      show \<open>rmatch p (drop k (x # xs)) (i + k) m = None\<close>
      proof (cases k)
        case 0
        with ar show ?thesis by simp
      next
        case (Suc k')
        with k ar have \<open>rmatch p (drop k' xs) (Suc i + k') m = None\<close> by simp
        with Suc show ?thesis by simp
      qed
    qed
  qed
  with Cons.IH[of \<open>Suc i\<close>] show ?case by (simp split: option.splits)
qed

lemma star_takes_all:
  assumes \<open>rmatch p (dropWhile (in_class c) s) (i + length (takeWhile (in_class c) s)) m = Some r\<close>
  shows \<open>rmatch (Star c # p) s i m = Some r\<close>
  using assms
proof (induction s arbitrary: i)
  case Nil
  then show ?case by simp
next
  case (Cons x xs)
  then show ?case by (cases \<open>in_class c x\<close>) simp_all
qed

lemma star_fails:
  assumes \<open>\<forall>k\<le>length (takeWhile (in_class c) s). rmatch p (drop k s) (i + k) m = None\<close>
  shows \<open>rmatch (Star c # p) s i m = None\<close>
  using assms
proof (induction s arbitrary: i)
  case Nil
  then show ?case by simp
next
  case (Cons x xs)
  from Cons.prems have 0: \<open>rmatch p (drop 0 (x # xs)) (i + 0) m = None\<close> by blast
  show ?case
  proof (cases \<open>in_class c x\<close>)
    case False
    with 0 show ?thesis by simp
  next
    case True
    have \<open>\<forall>k\<le>length (takeWhile (in_class c) xs). rmatch p (drop k xs) (Suc i + k) m = None\<close>
    proof (intro allI impI)
      fix k assume \<open>k \<le> length (takeWhile (in_class c) xs)\<close>
      then have \<open>Suc k \<le> length (takeWhile (in_class c) (x # xs))\<close> using True by simp
      with Cons.prems have \<open>rmatch p (drop (Suc k) (x # xs)) (i + Suc k) m = None\<close> by blast
      then show \<open>rmatch p (drop k xs) (Suc i + k) m = None\<close> by simp
    qed
    from Cons.IH[OF this] True 0 show ?thesis by simp
  qed
qed

lemma in_class_Space [simp]: \<open>in_class Space = is_space\<close>
  by (rule ext) simp

lemma occurs_at_hd:
  assumes \<open>occurs_at l s k\<close> \<open>l \<noteq> []\<close>
  shows \<open>k < length s \<and> s ! k = hd l\<close>
proof -
  from assms(1) obtain v where d: \<open>drop k s = l @ v\<close>
    by (auto simp: occurs_at_def prefix_def)
  with assms(2) have ne: \<open>drop k s \<noteq> []\<close> by simp
  then have k: \<open>k < length s\<close> by simp
  have \<open>hd (drop k s) = hd l\<close> using d assms(2) by simp
  with k show ?thesis by (simp add: hd_drop_conv_nth)
qed

lemma takeWhile_spaces_nth:
  assumes \<open>j < length (takeWhile P s)\<close>
  shows \<open>P (s ! j)\<close>
proof -
  have \<open>takeWhile P s ! j \<in> set (takeWhile P s)\<close> using assms by simp
  then have \<open>P (takeWhile P s ! j)\<close> by (rule set_takeWhileD[THEN conjunct2])
  with assms show ?thesis by (simp add: takeWhile_nth)
qed

text \<open>The end of both literal patterns: optional whitespace, then a token.\<close>

lemma tail_match:
  assumes \<open>l \<noteq> []\<close> \<open>\<not> is_space (hd l)\<close>
  shows \<open>rmatch [Star Space, Lit l] s i m =
           (if prefix l (dropWhile is_space s)
            then Some (i + length (takeWhile is_space s) + length l, m) else None)\<close>
proof (cases \<open>prefix l (dropWhile is_space s)\<close>)
  case True
  then have \<open>rmatch [Lit l] (dropWhile (in_class Space) s)
               (i + length (takeWhile (in_class Space) s)) m =
             Some (i + length (takeWhile is_space s) + length l, m)\<close>
    by simp
  from star_takes_all[OF this] True show ?thesis by simp
next
  case False
  have \<open>\<forall>k\<le>length (takeWhile (in_class Space) s). rmatch [Lit l] (drop k s) (i + k) m = None\<close>
  proof (intro allI impI)
    fix k assume k: \<open>k \<le> length (takeWhile (in_class Space) s)\<close>
    have \<open>\<not> prefix l (drop k s)\<close>
    proof (cases \<open>k = length (takeWhile is_space s)\<close>)
      case True
      with False show ?thesis by (simp add: dropWhile_eq_drop)
    next
      case ne: False
      with k have lt: \<open>k < length (takeWhile is_space s)\<close> by simp
      then have sp: \<open>is_space (s ! k)\<close> by (rule takeWhile_spaces_nth)
      have kl: \<open>k \<le> length s\<close>
        using lt length_takeWhile_le[of is_space s] by simp
      show ?thesis
      proof
        assume \<open>prefix l (drop k s)\<close>
        with kl have \<open>occurs_at l s k\<close> by (simp add: occurs_at_def)
        from occurs_at_hd[OF this assms(1)] sp assms(2) show False by simp
      qed
    qed
    then show \<open>rmatch [Lit l] (drop k s) (i + k) m = None\<close> by simp
  qed
  from star_fails[OF this] False show ?thesis by simp
qed

lemma tail_first:
  assumes \<open>l \<noteq> []\<close> \<open>\<not> is_space (hd l)\<close> \<open>first_at l t 0 c\<close>
  shows \<open>\<exists>k\<le>c. prefix l (dropWhile is_space (drop k t)) \<and>
           (\<forall>j<k. \<not> prefix l (dropWhile is_space (drop j t))) \<and>
           k + length (takeWhile is_space (drop k t)) = c\<close>
proof -
  let ?ok = \<open>\<lambda>k. prefix l (dropWhile is_space (drop k t))\<close>
  from assms(3) have oc: \<open>occurs_at l t c\<close> by (simp add: first_at_def)
  from occurs_at_hd[OF oc assms(1)] have c: \<open>c < length t\<close> \<open>t ! c = hd l\<close> by simp_all
  then have \<open>drop c t = hd l # drop (Suc c) t\<close>
    using Cons_nth_drop_Suc[of c t] by simp
  with assms(2) have \<open>dropWhile is_space (drop c t) = drop c t\<close> by simp
  with oc have okc: \<open>?ok c\<close> by (simp add: occurs_at_def)
  define k where \<open>k = (LEAST k. ?ok k)\<close>
  have ok: \<open>?ok k\<close> unfolding k_def using okc by (rule LeastI)
  have kc: \<open>k \<le> c\<close> unfolding k_def using okc by (rule Least_le)
  have least: \<open>\<forall>j<k. \<not> ?ok j\<close>
    unfolding k_def using not_less_Least by blast
  let ?w = \<open>length (takeWhile is_space (drop k t))\<close>
  have wl: \<open>k + ?w \<le> length t\<close>
    using length_takeWhile_le[of is_space \<open>drop k t\<close>] kc c(1) by simp
  have \<open>dropWhile is_space (drop k t) = drop (k + ?w) t\<close>
    by (simp add: dropWhile_eq_drop add.commute)
  with ok wl have \<open>occurs_at l t (k + ?w)\<close> by (simp add: occurs_at_def)
  with assms(3) have ge: \<open>c \<le> k + ?w\<close>
    by (auto simp: first_at_def)
  have \<open>\<not> c < k + ?w\<close>
  proof
    assume \<open>c < k + ?w\<close>
    with kc have \<open>c - k < ?w\<close> by simp
    then have \<open>is_space (drop k t ! (c - k))\<close> by (rule takeWhile_spaces_nth)
    moreover have \<open>drop k t ! (c - k) = t ! c\<close> using kc c(1) by simp
    ultimately show False using c(2) assms(2) by simp
  qed
  with ge have \<open>k + ?w = c\<close> by simp
  with ok kc least show ?thesis by blast
qed

lemma first_at_mono:
  \<open>first_at l s n c \<Longrightarrow> n \<le> n' \<Longrightarrow> n' \<le> c \<Longrightarrow> first_at l s n' c\<close>
  by (auto simp: first_at_def)

lemma first_at_occurs: \<open>first_at l s n c \<Longrightarrow> occurs_at l s c\<close>
  by (simp add: first_at_def)

lemma first_at_least: \<open>first_at l s n c \<Longrightarrow> occurs_at l s j \<Longrightarrow> n \<le> j \<Longrightarrow> c \<le> j\<close>
  by (rule ccontr) (auto simp: first_at_def)

lemma group_match:
  assumes \<open>l \<noteq> []\<close> \<open>\<not> is_space (hd l)\<close> \<open>first_at l t 0 c\<close>
  shows \<open>\<exists>k\<le>c. drop k (take c t) = takeWhile is_space (drop k t) \<and>
           rmatch [MarkOpen, Lazy AnyChar, MarkClose, Star Space, Lit l] t i m =
             Some (i + c + length l, (Some i, Some (i + k)))\<close>
proof -
  from tail_first[OF assms] obtain k where k: \<open>k \<le> c\<close>
    \<open>prefix l (dropWhile is_space (drop k t))\<close>
    \<open>\<forall>j<k. \<not> prefix l (dropWhile is_space (drop j t))\<close>
    \<open>k + length (takeWhile is_space (drop k t)) = c\<close>
    by blast
  from occurs_at_hd[OF first_at_occurs[OF assms(3)] assms(1)] have \<open>c < length t\<close> by simp
  with k(1) have kl: \<open>k \<le> length t\<close> by simp
  let ?p = \<open>[MarkClose, Star Space, Lit l]\<close>
  have at_k: \<open>rmatch ?p (drop k t) (i + k) (Some i, snd m) =
               Some (i + c + length l, (Some i, Some (i + k)))\<close>
    using k(2,4) by (simp add: tail_match[OF assms(1,2)] add.assoc)
  have before: \<open>\<forall>j<k. rmatch ?p (drop j t) (i + j) (Some i, snd m) = None\<close>
    using k(3) by (simp add: tail_match[OF assms(1,2)])
  have \<open>rmatch (Lazy AnyChar # ?p) t i (Some i, snd m) =
          Some (i + c + length l, (Some i, Some (i + k)))\<close>
    unfolding lazy_any_Some using kl at_k before by blast
  then have r: \<open>rmatch [MarkOpen, Lazy AnyChar, MarkClose, Star Space, Lit l] t i m =
                 Some (i + c + length l, (Some i, Some (i + k)))\<close>
    by simp
  have \<open>drop k (take c t) = take (c - k) (drop k t)\<close> by (simp add: drop_take)
  also have \<open>c - k = length (takeWhile is_space (drop k t))\<close> using k(4) by simp
  also have \<open>take (length (takeWhile is_space (drop k t))) (drop k t) =
              takeWhile is_space (drop k t)\<close>
    by (rule takeWhile_eq_take[symmetric])
  finally show ?thesis using k(1) r by blast
qed

lemma group_nomatch:
  assumes \<open>l \<noteq> []\<close> \<open>\<not> is_space (hd l)\<close> \<open>\<forall>j. \<not> occurs_at l t j\<close>
  shows \<open>rmatch [MarkOpen, Lazy AnyChar, MarkClose, Star Space, Lit l] t i m = None\<close>
proof -
  let ?p = \<open>[MarkClose, Star Space, Lit l]\<close>
  have \<open>\<forall>k\<le>length t. rmatch ?p (drop k t) (i + k) (Some i, snd m) = None\<close>
  proof (intro allI impI)
    fix k assume kl: \<open>k \<le> length t\<close>
    let ?w = \<open>length (takeWhile is_space (drop k t))\<close>
    have \<open>\<not> prefix l (dropWhile is_space (drop k t))\<close>
    proof
      assume \<open>prefix l (dropWhile is_space (drop k t))\<close>
      then have \<open>prefix l (drop (k + ?w) t)\<close>
        by (simp add: dropWhile_eq_drop add.commute)
      moreover have \<open>k + ?w \<le> length t\<close>
        using length_takeWhile_le[of is_space \<open>drop k t\<close>] kl by simp
      ultimately have \<open>occurs_at l t (k + ?w)\<close> by (simp add: occurs_at_def)
      with assms(3) show False by blast
    qed
    then show \<open>rmatch ?p (drop k t) (i + k) (Some i, snd m) = None\<close>
      by (simp add: tail_match[OF assms(1,2)])
  qed
  then have \<open>rmatch (Lazy AnyChar # ?p) t i (Some i, snd m) = None\<close>
    by (simp only: lazy_any_None)
  then show ?thesis by simp
qed

lemma star_group_match:
  assumes \<open>l \<noteq> []\<close> \<open>\<not> is_space (hd l)\<close> \<open>first_at l u 0 c\<close>
  shows \<open>\<exists>k. length (takeWhile is_space u) \<le> k \<and> k \<le> c \<and>
           drop k (take c u) = takeWhile is_space (drop k u) \<and>
           rmatch [Star Space, MarkOpen, Lazy AnyChar, MarkClose, Star Space, Lit l] u i m =
             Some (i + c + length l,
                   (Some (i + length (takeWhile is_space u)), Some (i + k)))\<close>
proof -
  let ?a = \<open>length (takeWhile is_space u)\<close>
  from occurs_at_hd[OF first_at_occurs[OF assms(3)] assms(1)]
  have c: \<open>c < length u\<close> \<open>u ! c = hd l\<close> by simp_all
  have ac: \<open>?a \<le> c\<close>
  proof (rule ccontr)
    assume \<open>\<not> ?a \<le> c\<close>
    then have \<open>c < ?a\<close> by simp
    then have \<open>is_space (u ! c)\<close> by (rule takeWhile_spaces_nth)
    with c(2) assms(2) show False by simp
  qed
  have al: \<open>?a \<le> length u\<close> by (rule length_takeWhile_le)
  have \<open>first_at l u ?a (?a + (c - ?a))\<close>
    using first_at_mono[OF assms(3), of ?a] ac by simp
  then have \<open>first_at l (drop ?a u) 0 (c - ?a)\<close>
    using first_at_drop[OF al, of l \<open>c - ?a\<close>] by simp
  from group_match[OF assms(1,2) this, of \<open>i + ?a\<close> m]
  obtain k' where k': \<open>k' \<le> c - ?a\<close>
    \<open>drop k' (take (c - ?a) (drop ?a u)) = takeWhile is_space (drop k' (drop ?a u))\<close>
    \<open>rmatch [MarkOpen, Lazy AnyChar, MarkClose, Star Space, Lit l] (drop ?a u) (i + ?a) m =
       Some (i + ?a + (c - ?a) + length l, (Some (i + ?a), Some (i + ?a + k')))\<close>
    by blast
  from k'(3) ac have \<open>rmatch [MarkOpen, Lazy AnyChar, MarkClose, Star Space, Lit l]
      (dropWhile (in_class Space) u) (i + length (takeWhile (in_class Space) u)) m =
       Some (i + c + length l, (Some (i + ?a), Some (i + (?a + k'))))\<close>
    by (simp add: dropWhile_eq_drop add.assoc)
  from star_takes_all[OF this]
  have r: \<open>rmatch [Star Space, MarkOpen, Lazy AnyChar, MarkClose, Star Space, Lit l] u i m =
       Some (i + c + length l, (Some (i + ?a), Some (i + (?a + k'))))\<close> .
  have \<open>drop (?a + k') (take c u) = drop k' (take (c - ?a) (drop ?a u))\<close>
    by (simp add: drop_take add.commute)
  with k'(2) have \<open>drop (?a + k') (take c u) = takeWhile is_space (drop (?a + k') u)\<close>
    by (simp add: add.commute)
  moreover have \<open>?a \<le> ?a + k'\<close> \<open>?a + k' \<le> c\<close> using k'(1) ac by simp_all
  ultimately show ?thesis using r by blast
qed

lemma star_group_nomatch:
  assumes \<open>l \<noteq> []\<close> \<open>\<not> is_space (hd l)\<close> \<open>\<forall>j. \<not> occurs_at l u j\<close>
  shows \<open>rmatch [Star Space, MarkOpen, Lazy AnyChar, MarkClose, Star Space, Lit l] u i m = None\<close>
proof -
  have \<open>\<forall>k\<le>length (takeWhile (in_class Space) u).
          rmatch [MarkOpen, Lazy AnyChar, MarkClose, Star Space, Lit l] (drop k u) (i + k) m = None\<close>
  proof (intro allI impI)
    fix k assume \<open>k \<le> length (takeWhile (in_class Space) u)\<close>
    then have kl: \<open>k \<le> length u\<close>
      using length_takeWhile_le[of is_space u] by simp
    have \<open>\<forall>j. \<not> occurs_at l (drop k u) j\<close>
      using assms(3) kl by (simp add: occurs_at_drop)
    from group_nomatch[OF assms(1,2) this]
    show \<open>rmatch [MarkOpen, Lazy AnyChar, MarkClose, Star Space, Lit l] (drop k u) (i + k) m = None\<close> .
  qed
  then show ?thesis by (rule star_fails)
qed

lemma lazy_lit_absent:
  assumes \<open>\<forall>j. \<not> occurs_at L s j\<close>
  shows \<open>rmatch (Lazy AnyChar # Lit L # q) s i m = None\<close>
proof -
  have \<open>\<forall>k\<le>length s. rmatch (Lit L # q) (drop k s) (i + k) m = None\<close>
    using assms by (auto simp: occurs_at_def)
  then show ?thesis by (simp only: lazy_any_None)
qed

lemma lazy_lit_found:
  assumes \<open>first_at L s 0 b\<close>
    and \<open>rmatch q (drop (b + length L) s) (i + (b + length L)) m = None \<Longrightarrow>
         (\<forall>k. b \<le> k \<and> k + length L \<le> length s \<longrightarrow>
              rmatch q (drop (k + length L) s) (i + (k + length L)) m = None)\<close>
  shows \<open>rmatch (Lazy AnyChar # Lit L # q) s i m =
           rmatch q (drop (b + length L) s) (i + (b + length L)) m\<close>
proof (cases \<open>rmatch q (drop (b + length L) s) (i + (b + length L)) m\<close>)
  case None
  have \<open>\<forall>k\<le>length s. rmatch (Lit L # q) (drop k s) (i + k) m = None\<close>
  proof (intro allI impI)
    fix k assume kl: \<open>k \<le> length s\<close>
    show \<open>rmatch (Lit L # q) (drop k s) (i + k) m = None\<close>
    proof (cases \<open>prefix L (drop k s)\<close>)
      case False
      then show ?thesis by simp
    next
      case True
      with kl have oc: \<open>occurs_at L s k\<close> by (simp add: occurs_at_def)
      then have \<open>b \<le> k\<close> using first_at_least[OF assms(1)] by simp
      moreover have \<open>k + length L \<le> length s\<close> using oc by (rule occurs_at_le)
      ultimately have \<open>rmatch q (drop (k + length L) s) (i + (k + length L)) m = None\<close>
        using assms(2)[OF None] by blast
      with True show ?thesis by (simp add: ac_simps)
    qed
  qed
  then have \<open>rmatch (Lazy AnyChar # Lit L # q) s i m = None\<close>
    by (simp only: lazy_any_None)
  with None show ?thesis by simp
next
  case (Some r)
  from assms(1) have oc: \<open>occurs_at L s b\<close> by (rule first_at_occurs)
  then have ol: \<open>b \<le> length s\<close> and pre: \<open>prefix L (drop b s)\<close>
    by (simp_all add: occurs_at_def)
  have at: \<open>rmatch (Lit L # q) (drop b s) (i + b) m = Some r\<close>
    using pre Some by (simp add: ac_simps)
  have before: \<open>\<forall>j<b. rmatch (Lit L # q) (drop j s) (i + j) m = None\<close>
  proof (intro allI impI)
    fix j assume \<open>j < b\<close>
    then have \<open>\<not> occurs_at L s j\<close> using assms(1) by (simp add: first_at_def)
    moreover have \<open>j \<le> length s\<close> using \<open>j < b\<close> ol by simp
    ultimately have \<open>\<not> prefix L (drop j s)\<close> by (simp add: occurs_at_def)
    then show \<open>rmatch (Lit L # q) (drop j s) (i + j) m = None\<close> by simp
  qed
  have \<open>rmatch (Lazy AnyChar # Lit L # q) s i m = Some r\<close>
    unfolding lazy_any_Some using ol at before by blast
  with Some show ?thesis by simp
qed


section \<open>The firmware extractor\<close>

lemma literal_close_props:
  \<open>literal_close \<noteq> []\<close> \<open>\<not> is_space (hd literal_close)\<close> \<open>length literal_close = 3\<close>
  by (simp_all add: literal_close_def is_space_def)

lemma length_handler_open: \<open>length handler_open = 19\<close>
  by (simp add: handler_open_def)

lemma first_from_occurrence:
  assumes \<open>occurs_at l s j\<close> \<open>n \<le> j\<close>
  shows \<open>\<exists>k. first_at l s n k \<and> k \<le> j\<close>
proof -
  from assms have \<open>\<not> absent_from l s n\<close> by (auto simp: absent_from_iff)
  with absent_or_first[of l s n] obtain k where k: \<open>first_at l s n k\<close> by blast
  from first_at_least[OF k assms] k show ?thesis by blast
qed

text \<open>The part of the firmware pattern after the opening token.\<close>

lemma body_none_iff:
  \<open>rmatch [Star Space, MarkOpen, Lazy AnyChar, MarkClose, Star Space, Lit literal_close] u i m = None
     \<longleftrightarrow> (\<forall>j. \<not> occurs_at literal_close u j)\<close>
proof
  assume n: \<open>rmatch [Star Space, MarkOpen, Lazy AnyChar, MarkClose, Star Space, Lit literal_close]
               u i m = None\<close>
  show \<open>\<forall>j. \<not> occurs_at literal_close u j\<close>
  proof (intro allI notI)
    fix j assume \<open>occurs_at literal_close u j\<close>
    from first_from_occurrence[OF this, of 0] obtain c where \<open>first_at literal_close u 0 c\<close>
      by auto
    from star_group_match[OF literal_close_props(1,2) this, of i m] n show False by auto
  qed
next
  assume \<open>\<forall>j. \<not> occurs_at literal_close u j\<close>
  then show \<open>rmatch [Star Space, MarkOpen, Lazy AnyChar, MarkClose, Star Space, Lit literal_close]
               u i m = None\<close>
    by (rule star_group_nomatch[OF literal_close_props(1,2)])
qed

text \<open>The part after the handler's brace: up to the opening token, then the body.\<close>

lemma literal_found:
  assumes \<open>first_at literal_open v 0 b\<close>
  shows \<open>rmatch (Lazy AnyChar # Lit literal_open #
             [Star Space, MarkOpen, Lazy AnyChar, MarkClose, Star Space, Lit literal_close]) v i m =
           rmatch [Star Space, MarkOpen, Lazy AnyChar, MarkClose, Star Space, Lit literal_close]
             (drop (b + length literal_open) v) (i + (b + length literal_open)) m\<close>
proof (rule lazy_lit_found[OF assms])
  let ?q = \<open>[Star Space, MarkOpen, Lazy AnyChar, MarkClose, Star Space, Lit literal_close]\<close>
  assume \<open>rmatch ?q (drop (b + length literal_open) v) (i + (b + length literal_open)) m = None\<close>
  then have no: \<open>\<forall>j. \<not> occurs_at literal_close (drop (b + length literal_open) v) j\<close>
    by (simp add: body_none_iff)
  show \<open>\<forall>k. b \<le> k \<and> k + length literal_open \<le> length v \<longrightarrow>
          rmatch ?q (drop (k + length literal_open) v) (i + (k + length literal_open)) m = None\<close>
  proof (intro allI impI)
    fix k assume k: \<open>b \<le> k \<and> k + length literal_open \<le> length v\<close>
    have \<open>\<forall>j. \<not> occurs_at literal_close (drop (k + length literal_open) v) j\<close>
    proof (intro allI notI)
      fix j assume \<open>occurs_at literal_close (drop (k + length literal_open) v) j\<close>
      with k have \<open>occurs_at literal_close v (k + length literal_open + j)\<close>
        by (simp add: occurs_at_drop)
      moreover have \<open>k + length literal_open + j = (b + length literal_open) + (k - b + j)\<close>
        using k by simp
      moreover have \<open>b + length literal_open \<le> length v\<close> using k by simp
      ultimately have \<open>occurs_at literal_close (drop (b + length literal_open) v) (k - b + j)\<close>
        by (simp add: occurs_at_drop)
      with no show False by blast
    qed
    then show \<open>rmatch ?q (drop (k + length literal_open) v) (i + (k + length literal_open)) m = None\<close>
      by (simp add: body_none_iff)
  qed
qed

lemma literal_none_iff:
  \<open>rmatch (Lazy AnyChar # Lit literal_open #
             [Star Space, MarkOpen, Lazy AnyChar, MarkClose, Star Space, Lit literal_close]) v i m = None
     \<longleftrightarrow> \<not> (\<exists>b c. occurs_at literal_open v b \<and> b + length literal_open \<le> c \<and>
                  occurs_at literal_close v c)\<close>
proof (cases \<open>\<exists>j. occurs_at literal_open v j\<close>)
  case False
  then have \<open>\<forall>j. \<not> occurs_at literal_open v j\<close> by blast
  from lazy_lit_absent[OF this] False show ?thesis by auto
next
  case True
  then obtain j where \<open>occurs_at literal_open v j\<close> by blast
  from first_from_occurrence[OF this, of 0] obtain b where b: \<open>first_at literal_open v 0 b\<close>
    by auto
  have bl: \<open>b + length literal_open \<le> length v\<close>
    using occurs_at_le[OF first_at_occurs[OF b]] .
  have \<open>(\<forall>j. \<not> occurs_at literal_close (drop (b + length literal_open) v) j) \<longleftrightarrow>
        \<not> (\<exists>b c. occurs_at literal_open v b \<and> b + length literal_open \<le> c \<and>
                  occurs_at literal_close v c)\<close>
  proof
    assume no: \<open>\<forall>j. \<not> occurs_at literal_close (drop (b + length literal_open) v) j\<close>
    show \<open>\<not> (\<exists>b c. occurs_at literal_open v b \<and> b + length literal_open \<le> c \<and>
                  occurs_at literal_close v c)\<close>
    proof
      assume \<open>\<exists>b c. occurs_at literal_open v b \<and> b + length literal_open \<le> c \<and>
                  occurs_at literal_close v c\<close>
      then obtain b' c where bc: \<open>occurs_at literal_open v b'\<close> \<open>b' + length literal_open \<le> c\<close>
        \<open>occurs_at literal_close v c\<close> by blast
      have \<open>b \<le> b'\<close> using first_at_least[OF b bc(1)] by simp
      with bc(2) have \<open>c = (b + length literal_open) + (c - (b + length literal_open))\<close> by simp
      with bc(3) bl have \<open>occurs_at literal_close (drop (b + length literal_open) v)
          (c - (b + length literal_open))\<close>
        using occurs_at_drop[OF bl, of literal_close \<open>c - (b + length literal_open)\<close>] by simp
      with no show False by blast
    qed
  next
    assume no: \<open>\<not> (\<exists>b c. occurs_at literal_open v b \<and> b + length literal_open \<le> c \<and>
                  occurs_at literal_close v c)\<close>
    show \<open>\<forall>j. \<not> occurs_at literal_close (drop (b + length literal_open) v) j\<close>
    proof (intro allI notI)
      fix j assume \<open>occurs_at literal_close (drop (b + length literal_open) v) j\<close>
      with bl have \<open>occurs_at literal_close v (b + length literal_open + j)\<close>
        by (simp add: occurs_at_drop)
      with first_at_occurs[OF b] no show False by (meson le_add1)
    qed
  qed
  then show ?thesis by (simp add: literal_found[OF b] body_none_iff)
qed

lemma search_at_lazy:
  \<open>map_option (\<lambda>mo. (m_end mo, m_group mo)) (search_at p s i) =
     rmatch (Lazy AnyChar # p) s i (None, None)\<close>
  by (induction s arbitrary: i) (auto split: option.splits)

lemma handler_found:
  assumes \<open>first_at handler_open s 0 h\<close>
  shows \<open>rmatch (Lazy AnyChar # ino_pattern) s i m =
           rmatch (Lazy AnyChar # Lit literal_open #
             [Star Space, MarkOpen, Lazy AnyChar, MarkClose, Star Space, Lit literal_close])
             (drop (h + length handler_open) s) (i + (h + length handler_open)) m\<close>
proof -
  let ?q = \<open>Lazy AnyChar # Lit literal_open #
             [Star Space, MarkOpen, Lazy AnyChar, MarkClose, Star Space, Lit literal_close]\<close>
  have pat: \<open>ino_pattern = Lit handler_open # ?q\<close>
    by (simp add: ino_pattern_def handler_open_def literal_open_def literal_close_def)
  have \<open>rmatch (Lazy AnyChar # Lit handler_open # ?q) s i m =
          rmatch ?q (drop (h + length handler_open) s) (i + (h + length handler_open)) m\<close>
  proof (rule lazy_lit_found[OF assms])
    assume \<open>rmatch ?q (drop (h + length handler_open) s) (i + (h + length handler_open)) m = None\<close>
    then have no: \<open>\<not> (\<exists>b c. occurs_at literal_open (drop (h + length handler_open) s) b \<and>
        b + length literal_open \<le> c \<and> occurs_at literal_close (drop (h + length handler_open) s) c)\<close>
      by (simp add: literal_none_iff)
    show \<open>\<forall>k. h \<le> k \<and> k + length handler_open \<le> length s \<longrightarrow>
            rmatch ?q (drop (k + length handler_open) s) (i + (k + length handler_open)) m = None\<close>
    proof (intro allI impI)
      fix k assume k: \<open>h \<le> k \<and> k + length handler_open \<le> length s\<close>
      then have hl: \<open>h + length handler_open \<le> length s\<close> by simp
      have \<open>\<not> (\<exists>b c. occurs_at literal_open (drop (k + length handler_open) s) b \<and>
        b + length literal_open \<le> c \<and> occurs_at literal_close (drop (k + length handler_open) s) c)\<close>
      proof
        assume \<open>\<exists>b c. occurs_at literal_open (drop (k + length handler_open) s) b \<and>
          b + length literal_open \<le> c \<and> occurs_at literal_close (drop (k + length handler_open) s) c\<close>
        then obtain b c where bc:
          \<open>occurs_at literal_open (drop (k + length handler_open) s) b\<close>
          \<open>b + length literal_open \<le> c\<close>
          \<open>occurs_at literal_close (drop (k + length handler_open) s) c\<close> by blast
        have e: \<open>k + length handler_open + j = (h + length handler_open) + (k - h + j)\<close> for j
          using k by simp
        from bc(1) k have \<open>occurs_at literal_open s (k + length handler_open + b)\<close>
          by (simp add: occurs_at_drop)
        then have 1: \<open>occurs_at literal_open (drop (h + length handler_open) s) (k - h + b)\<close>
          using occurs_at_drop[OF hl, of literal_open \<open>k - h + b\<close>] e[of b] by simp
        from bc(3) k have \<open>occurs_at literal_close s (k + length handler_open + c)\<close>
          by (simp add: occurs_at_drop)
        then have 2: \<open>occurs_at literal_close (drop (h + length handler_open) s) (k - h + c)\<close>
          using occurs_at_drop[OF hl, of literal_close \<open>k - h + c\<close>] e[of c] by simp
        have \<open>(k - h + b) + length literal_open \<le> k - h + c\<close> using bc(2) by simp
        with 1 2 no show False by blast
      qed
      then show \<open>rmatch ?q (drop (k + length handler_open) s) (i + (k + length handler_open)) m = None\<close>
        by (simp add: literal_none_iff)
    qed
  qed
  then show ?thesis by (simp only: pat)
qed

text \<open>What \<open>re.search\<close> finds for the firmware pattern.\<close>

lemma ino_search_found:
  assumes \<open>first_at handler_open s 0 h\<close>
    and \<open>first_at literal_open s (h + length handler_open) b\<close>
    and \<open>first_at literal_close s (b + length literal_open) c\<close>
  shows \<open>\<exists>mo a k. re_search ino_pattern s = Some mo \<and> m_group mo = (Some a, Some k) \<and>
           m_end mo = c + length literal_close \<and>
           a = b + length literal_open +
               length (takeWhile is_space (drop (b + length literal_open) s)) \<and>
           a \<le> k \<and> k \<le> c \<and> drop k (take c s) = takeWhile is_space (drop k s)\<close>
proof -
  let ?H = \<open>h + length handler_open\<close>
  let ?B = \<open>b + length literal_open\<close>
  let ?q1 = \<open>[Star Space, MarkOpen, Lazy AnyChar, MarkClose, Star Space, Lit literal_close]\<close>
  have hl: \<open>?H \<le> length s\<close> using occurs_at_le[OF first_at_occurs[OF assms(1)]] .
  have hb: \<open>?H \<le> b\<close> using assms(2) by (simp add: first_at_def)
  have bl: \<open>?B \<le> length s\<close> using occurs_at_le[OF first_at_occurs[OF assms(2)]] .
  have bc: \<open>?B \<le> c\<close> using assms(3) by (simp add: first_at_def)
  have \<open>first_at literal_open s ?H (?H + (b - ?H))\<close> using assms(2) hb by simp
  then have fo: \<open>first_at literal_open (drop ?H s) 0 (b - ?H)\<close>
    using first_at_drop[OF hl, of literal_open \<open>b - ?H\<close>] by simp
  have \<open>first_at literal_close s ?B (?B + (c - ?B))\<close> using assms(3) bc by simp
  then have fc: \<open>first_at literal_close (drop ?B s) 0 (c - ?B)\<close>
    using first_at_drop[OF bl, of literal_close \<open>c - ?B\<close>] by simp
  have d: \<open>drop (b - ?H + length literal_open) (drop ?H s) = drop ?B s\<close>
    using hb by simp
  have \<open>rmatch (Lazy AnyChar # ino_pattern) s 0 (None, None) =
          rmatch ?q1 (drop ?B s) ?B (None, None)\<close>
    using hb by (simp add: handler_found[OF assms(1)] literal_found[OF fo] d)
  moreover from star_group_match[OF literal_close_props(1,2) fc, of ?B \<open>(None, None)\<close>]
  obtain k' where k': \<open>length (takeWhile is_space (drop ?B s)) \<le> k'\<close> \<open>k' \<le> c - ?B\<close>
    \<open>drop k' (take (c - ?B) (drop ?B s)) = takeWhile is_space (drop k' (drop ?B s))\<close>
    \<open>rmatch ?q1 (drop ?B s) ?B (None, None) =
       Some (?B + (c - ?B) + length literal_close,
             (Some (?B + length (takeWhile is_space (drop ?B s))), Some (?B + k')))\<close>
    by blast
  ultimately have r: \<open>rmatch (Lazy AnyChar # ino_pattern) s 0 (None, None) =
      Some (c + length literal_close,
            (Some (?B + length (takeWhile is_space (drop ?B s))), Some (?B + k')))\<close>
    using bc by simp
  then obtain mo where mo: \<open>re_search ino_pattern s = Some mo\<close>
    \<open>m_end mo = c + length literal_close\<close>
    \<open>m_group mo = (Some (?B + length (takeWhile is_space (drop ?B s))), Some (?B + k'))\<close>
    using search_at_lazy[of ino_pattern s 0] by (auto simp: re_search_def)
  have \<open>drop (?B + k') (take c s) = drop k' (take (c - ?B) (drop ?B s))\<close>
    by (simp add: drop_take add.commute)
  with k'(3) have \<open>drop (?B + k') (take c s) = takeWhile is_space (drop (?B + k') s)\<close>
    by (simp add: add.commute)
  moreover have \<open>?B + length (takeWhile is_space (drop ?B s)) \<le> ?B + k'\<close> \<open>?B + k' \<le> c\<close>
    using k'(1,2) bc by simp_all
  ultimately show ?thesis using mo by blast
qed

lemma ino_search_none:
  assumes \<open>\<not> (\<exists>h b c. occurs_at handler_open s h \<and> h + length handler_open \<le> b \<and>
                   occurs_at literal_open s b \<and> b + length literal_open \<le> c \<and>
                   occurs_at literal_close s c)\<close>
  shows \<open>re_search ino_pattern s = None\<close>
proof -
  have \<open>rmatch (Lazy AnyChar # ino_pattern) s 0 (None, None) = None\<close>
  proof (cases \<open>\<exists>j. occurs_at handler_open s j\<close>)
    case False
    then have \<open>\<forall>j. \<not> occurs_at handler_open s j\<close> by blast
    from lazy_lit_absent[OF this] show ?thesis
      by (simp add: ino_pattern_def handler_open_def)
  next
    case True
    then obtain j where \<open>occurs_at handler_open s j\<close> by blast
    from first_from_occurrence[OF this, of 0] obtain h where h: \<open>first_at handler_open s 0 h\<close>
      by auto
    let ?H = \<open>h + length handler_open\<close>
    have hl: \<open>?H \<le> length s\<close> using occurs_at_le[OF first_at_occurs[OF h]] .
    have \<open>\<not> (\<exists>b c. occurs_at literal_open (drop ?H s) b \<and> b + length literal_open \<le> c \<and>
                  occurs_at literal_close (drop ?H s) c)\<close>
    proof
      assume \<open>\<exists>b c. occurs_at literal_open (drop ?H s) b \<and> b + length literal_open \<le> c \<and>
                  occurs_at literal_close (drop ?H s) c\<close>
      then obtain b c where \<open>occurs_at literal_open (drop ?H s) b\<close>
        \<open>b + length literal_open \<le> c\<close> \<open>occurs_at literal_close (drop ?H s) c\<close> by blast
      with hl have \<open>occurs_at literal_open s (?H + b)\<close> \<open>occurs_at literal_close s (?H + c)\<close>
        \<open>?H + b + length literal_open \<le> ?H + c\<close> \<open>?H \<le> ?H + b\<close>
        by (simp_all add: occurs_at_drop)
      with first_at_occurs[OF h] assms show False by blast
    qed
    then show ?thesis by (simp add: handler_found[OF h] literal_none_iff)
  qed
  then show ?thesis
    using search_at_lazy[of ino_pattern s 0] by (simp add: re_search_def)
qed

lemma first_chain_exists:
  assumes \<open>occurs_at handler_open s h\<close> \<open>h + length handler_open \<le> b\<close>
    \<open>occurs_at literal_open s b\<close> \<open>b + length literal_open \<le> c\<close> \<open>occurs_at literal_close s c\<close>
  shows \<open>\<exists>h' b' c'. first_at handler_open s 0 h' \<and>
           first_at literal_open s (h' + length handler_open) b' \<and>
           first_at literal_close s (b' + length literal_open) c'\<close>
proof -
  from first_from_occurrence[OF assms(1), of 0] obtain h' where
    h': \<open>first_at handler_open s 0 h'\<close> \<open>h' \<le> h\<close> by auto
  with assms(2) have \<open>h' + length handler_open \<le> b\<close> by simp
  from first_from_occurrence[OF assms(3) this] obtain b' where
    b': \<open>first_at literal_open s (h' + length handler_open) b'\<close> \<open>b' \<le> b\<close> by auto
  with assms(4) have \<open>b' + length literal_open \<le> c\<close> by simp
  from first_from_occurrence[OF assms(5) this] obtain c' where
    \<open>first_at literal_close s (b' + length literal_open) c'\<close> by auto
  with h'(1) b'(1) show ?thesis by blast
qed

lemma lstrip_pad: \<open>\<forall>x\<in>set p. is_space x \<Longrightarrow> lstrip (p @ s) = lstrip s\<close>
  by (simp add: lstrip_def dropWhile_append2)

lemma rstrip_pad:
  assumes \<open>\<forall>x\<in>set q. is_space x\<close>
  shows \<open>rstrip (s @ q) = rstrip s\<close>
proof -
  have \<open>dropWhile is_space (rev q @ rev s) = dropWhile is_space (rev s)\<close>
    using assms by (intro dropWhile_append2) simp
  then show ?thesis by (simp add: rstrip_def)
qed

lemma spaces_takeWhile: \<open>\<forall>x\<in>set (takeWhile is_space s). is_space x\<close>
  by (auto dest: set_takeWhileD)

lemma lstrip_append_spaces:
  assumes \<open>\<forall>x\<in>set q. is_space x\<close>
  shows \<open>\<exists>q'. (\<forall>x\<in>set q'. is_space x) \<and> lstrip (g @ q) = lstrip g @ q'\<close>
proof (cases \<open>\<forall>x\<in>set g. is_space x\<close>)
  case True
  then have \<open>lstrip (g @ q) = []\<close> \<open>lstrip g = []\<close>
    using assms by (simp_all add: lstrip_def dropWhile_append2)
  then show ?thesis by simp
next
  case False
  then obtain x where \<open>x \<in> set g\<close> \<open>\<not> is_space x\<close> by blast
  then have \<open>lstrip (g @ q) = lstrip g @ q\<close>
    by (simp add: lstrip_def dropWhile_append1)
  with assms show ?thesis by blast
qed

lemma strip_pad:
  assumes \<open>\<forall>x\<in>set p. is_space x\<close> \<open>\<forall>x\<in>set q. is_space x\<close>
  shows \<open>strip (p @ g @ q) = strip g\<close>
proof -
  from lstrip_append_spaces[OF assms(2), of g] obtain q' where
    q': \<open>\<forall>x\<in>set q'. is_space x\<close> \<open>lstrip (g @ q) = lstrip g @ q'\<close> by blast
  have \<open>strip (p @ g @ q) = rstrip (lstrip (g @ q))\<close>
    by (simp add: strip_def lstrip_pad[OF assms(1)])
  also have \<open>\<dots> = rstrip (lstrip g)\<close>
    by (simp add: q'(2) rstrip_pad[OF q'(1)])
  finally show ?thesis by (simp add: strip_def)
qed

lemma ino_found:
  assumes \<open>files ''swim_pacer.ino'' = Some content\<close>
    and \<open>first_at handler_open content 0 h\<close>
    and \<open>first_at literal_open content (h + length handler_open) b\<close>
    and \<open>first_at literal_close content (b + length literal_open) c\<close>
  shows \<open>extract_html_from_ino files =
           ([], Some (strip (take (c - (b + length literal_open))
                               (drop (b + length literal_open) content))))\<close>
proof -
  let ?B = \<open>b + length literal_open\<close>
  from ino_search_found[OF assms(2,3,4)] obtain mo a k where
    mo: \<open>re_search ino_pattern content = Some mo\<close> \<open>m_group mo = (Some a, Some k)\<close>
    and a: \<open>a = ?B + length (takeWhile is_space (drop ?B content))\<close>
    and ak: \<open>a \<le> k\<close> \<open>k \<le> c\<close>
    and sp: \<open>drop k (take c content) = takeWhile is_space (drop k content)\<close>
    by blast
  have g: \<open>group1 content mo = take (k - a) (drop a content)\<close>
    using mo(2) by (simp add: group1_def slice_nonneg)
  have Ba: \<open>?B \<le> a\<close> using a by simp
  have p1: \<open>take (a - ?B) (drop ?B content) = takeWhile is_space (drop ?B content)\<close>
    using a takeWhile_eq_take[of is_space \<open>drop ?B content\<close>] by simp
  have \<open>take (c - ?B) (drop ?B content) =
          take (a - ?B) (drop ?B content) @ take (c - a) (drop a content)\<close>
  proof -
    have \<open>take (c - ?B) (drop ?B content) =
            take (a - ?B + (c - a)) (drop ?B content)\<close> using Ba ak by simp
    also have \<open>\<dots> = take (a - ?B) (drop ?B content) @
                      take (c - a) (drop (a - ?B) (drop ?B content))\<close>
      by (rule take_add)
    finally show ?thesis using Ba by simp
  qed
  moreover have \<open>take (c - a) (drop a content) =
          take (k - a) (drop a content) @ drop k (take c content)\<close>
  proof -
    have \<open>take (c - a) (drop a content) = take (k - a + (c - k)) (drop a content)\<close>
      using ak by simp
    also have \<open>\<dots> = take (k - a) (drop a content) @ take (c - k) (drop (k - a) (drop a content))\<close>
      by (rule take_add)
    finally show ?thesis using ak by (simp add: drop_take)
  qed
  ultimately have \<open>take (c - ?B) (drop ?B content) =
      takeWhile is_space (drop ?B content) @ take (k - a) (drop a content) @
      takeWhile is_space (drop k content)\<close>
    by (simp add: p1 sp)
  then have \<open>strip (take (c - ?B) (drop ?B content)) = strip (take (k - a) (drop a content))\<close>
    by (simp only: strip_pad[OF spaces_takeWhile spaces_takeWhile])
  with assms(1) mo(1) g show ?thesis
    by (simp add: extract_html_from_ino_def)
qed

lemma ino_not_found:
  assumes \<open>files ''swim_pacer.ino'' = Some content\<close>
    and \<open>\<not> (\<exists>h b c. occurs_at handler_open content h \<and> h + length handler_open \<le> b \<and>
                   occurs_at literal_open content b \<and> b + length literal_open \<le> c \<and>
                   occurs_at literal_close content c)\<close>
  shows \<open>extract_html_from_ino files = ([InoPatternNotFound], None)\<close>
  using assms(1) ino_search_none[OF assms(2)] by (simp add: extract_html_from_ino_def)

lemma absent_allI: \<open>find_at sub s 0 = None \<Longrightarrow> \<forall>j. \<not> occurs_at sub s j\<close>
  by (simp add: find_at_None)


section \<open>Occurrences in a spliced document\<close>

lemma occurs_at_extend: \<open>occurs_at t u k \<Longrightarrow> occurs_at t (u @ v) k\<close>
  by (auto simp: occurs_at_def)

lemma occurs_at_within:
  assumes \<open>occurs_at t (u @ v) k\<close> \<open>k + length t \<le> length u\<close>
  shows \<open>occurs_at t u k\<close>
proof -
  from assms(1) have \<open>prefix t (drop k u @ v)\<close>
    using assms(2) by (simp add: occurs_at_def)
  then have \<open>take (length t) (drop k u @ v) = t\<close>
    by (metis append_eq_conv_conj prefix_def)
  moreover have \<open>length t \<le> length (drop k u)\<close> using assms(2) by simp
  ultimately have \<open>take (length t) (drop k u) = t\<close> by simp
  then have \<open>prefix t (drop k u)\<close> by (metis take_is_prefix)
  with assms(2) show ?thesis by (simp add: occurs_at_def)
qed

lemma occurs_at_after: \<open>occurs_at t (u @ v) (length u + k) \<longleftrightarrow> occurs_at t v k\<close>
  by (simp add: occurs_at_def)

lemma occurs_at_take:
  assumes \<open>occurs_at t (take n s) k\<close>
  shows \<open>occurs_at t s k\<close>
proof -
  have \<open>occurs_at t (take n s @ drop n s) k\<close> using assms by (rule occurs_at_extend)
  then show ?thesis by simp
qed

lemma occurs_at_nth:
  assumes \<open>occurs_at t s k\<close> \<open>i < length t\<close>
  shows \<open>s ! (k + i) = t ! i\<close>
proof -
  from assms(1) obtain v where d: \<open>drop k s = t @ v\<close> and k: \<open>k \<le> length s\<close>
    by (auto simp: occurs_at_def prefix_def)
  have \<open>k + i < length s\<close> using occurs_at_le[OF assms(1)] assms(2) by simp
  then have \<open>s ! (k + i) = drop k s ! i\<close> by simp
  also have \<open>\<dots> = t ! i\<close> using d assms(2) by (simp add: nth_append)
  finally show ?thesis .
qed

lemma occurs_before_sep:
  assumes \<open>occurs_at t (g @ x # w) k\<close> \<open>x \<notin> set t\<close> \<open>k \<le> length g\<close>
  shows \<open>occurs_at t g k\<close>
proof (cases \<open>k + length t \<le> length g\<close>)
  case True
  with assms(1) show ?thesis by (rule occurs_at_within)
next
  case False
  with assms(3) have i: \<open>length g - k < length t\<close> by simp
  from occurs_at_nth[OF assms(1) i] assms(3) have \<open>t ! (length g - k) = x\<close> by simp
  with i assms(2) show ?thesis by (metis nth_mem)
qed

lemma first_at_in_prefix:
  assumes \<open>first_at t s 0 k\<close> \<open>k + length t \<le> n\<close>
  shows \<open>first_at t (take n s @ w) 0 k\<close>
proof -
  have oc: \<open>occurs_at t s k\<close> using assms(1) by (rule first_at_occurs)
  have kl: \<open>k + length t \<le> length (take n s)\<close>
    using occurs_at_le[OF oc] assms(2) by simp
  have \<open>occurs_at t (take n s @ drop n s) k\<close> using oc by simp
  from occurs_at_within[OF this kl] have \<open>occurs_at t (take n s @ w) k\<close>
    by (rule occurs_at_extend)
  moreover have \<open>\<not> occurs_at t (take n s @ w) j\<close> if \<open>j < k\<close> for j
  proof
    assume a: \<open>occurs_at t (take n s @ w) j\<close>
    have \<open>j + length t \<le> length (take n s)\<close> using kl that by simp
    from occurs_at_take[OF occurs_at_within[OF a this]] assms(1) that
    show False by (simp add: first_at_def)
  qed
  ultimately show ?thesis by (simp add: first_at_def)
qed

lemma first_at_in_prefix_from:
  assumes \<open>first_at t s 0 k\<close> \<open>k + length t \<le> n\<close> \<open>j \<le> k\<close>
  shows \<open>first_at t (take n s @ w) j k\<close>
  using first_at_mono[OF first_at_in_prefix[OF assms(1,2)], of j] assms(3) by simp

text \<open>The body that the splicer writes: a line break, the new text, a line break.\<close>

lemma first_in_body:
  assumes \<open>first_at t g 0 m\<close> \<open>t \<noteq> []\<close> \<open>hd t \<noteq> CHR ''\<newline>''\<close>
  shows \<open>first_at t (P @ ''\<newline>'' @ g @ ''\<newline>'' @ Q) (length P) (length P + 1 + m)\<close>
proof -
  let ?N = \<open>P @ ''\<newline>'' @ g @ ''\<newline>'' @ Q\<close>
  have N: \<open>?N = (P @ ''\<newline>'') @ g @ ''\<newline>'' @ Q\<close> by simp
  have oc: \<open>occurs_at t g m\<close> using assms(1) by (rule first_at_occurs)
  have \<open>occurs_at t ((P @ ''\<newline>'') @ g @ ''\<newline>'' @ Q) (length (P @ ''\<newline>'') + m)\<close>
    unfolding occurs_at_after using oc by (rule occurs_at_extend)
  then have 1: \<open>occurs_at t ?N (length P + 1 + m)\<close> by simp
  have 2: \<open>\<not> occurs_at t ?N j\<close> if j: \<open>length P \<le> j\<close> \<open>j < length P + 1 + m\<close> for j
  proof
    assume a: \<open>occurs_at t ?N j\<close>
    show False
    proof (cases \<open>j = length P\<close>)
      case True
      with a have \<open>occurs_at t (''\<newline>'' @ g @ ''\<newline>'' @ Q) 0\<close>
        using occurs_at_after[of t P \<open>''\<newline>'' @ g @ ''\<newline>'' @ Q\<close> 0] by simp
      from occurs_at_hd[OF this assms(2)] assms(3) show False by simp
    next
      case False
      define k where \<open>k = j - length P - 1\<close>
      have k: \<open>j = length (P @ ''\<newline>'') + k\<close> \<open>k < m\<close>
        using False j by (simp_all add: k_def)
      from a k(1) have b: \<open>occurs_at t (g @ ''\<newline>'' @ Q) k\<close>
        using occurs_at_after[of t \<open>P @ ''\<newline>''\<close> \<open>g @ ''\<newline>'' @ Q\<close> k] by simp
      have \<open>k + length t \<le> length g\<close>
        using occurs_at_le[OF oc] k(2) by simp
      from occurs_at_within[OF b this] assms(1) k(2) show False
        by (simp add: first_at_def)
    qed
  qed
  from 1 2 show ?thesis by (auto simp: first_at_def)
qed

lemma literal_close_no_newline: \<open>CHR ''\<newline>'' \<notin> set literal_close\<close>
  by (simp add: literal_close_def)

lemma first_close_after_body:
  assumes \<open>\<forall>j. \<not> occurs_at t g j\<close> \<open>t \<noteq> []\<close> \<open>CHR ''\<newline>'' \<notin> set t\<close> \<open>prefix t Q\<close>
  shows \<open>first_at t (P @ ''\<newline>'' @ g @ ''\<newline>'' @ Q) (length P) (length P + length g + 2)\<close>
proof -
  let ?N = \<open>P @ ''\<newline>'' @ g @ ''\<newline>'' @ Q\<close>
  have \<open>occurs_at t ((P @ ''\<newline>'' @ g @ ''\<newline>'') @ Q)
          (length (P @ ''\<newline>'' @ g @ ''\<newline>'') + 0)\<close>
    unfolding occurs_at_after using assms(4) by (simp add: occurs_at_def)
  then have 1: \<open>occurs_at t ?N (length P + length g + 2)\<close> by simp
  have hd: \<open>hd t \<noteq> CHR ''\<newline>''\<close> using assms(2,3) by (cases t) auto
  have 2: \<open>\<not> occurs_at t ?N j\<close> if j: \<open>length P \<le> j\<close> \<open>j < length P + length g + 2\<close> for j
  proof
    assume a: \<open>occurs_at t ?N j\<close>
    show False
    proof (cases \<open>j = length P\<close>)
      case True
      with a have \<open>occurs_at t (''\<newline>'' @ g @ ''\<newline>'' @ Q) 0\<close>
        using occurs_at_after[of t P \<open>''\<newline>'' @ g @ ''\<newline>'' @ Q\<close> 0] by simp
      from occurs_at_hd[OF this assms(2)] hd show False by simp
    next
      case False
      define k where \<open>k = j - length P - 1\<close>
      have k: \<open>j = length (P @ ''\<newline>'') + k\<close> \<open>k \<le> length g\<close>
        using False j by (simp_all add: k_def)
      from a k(1) have \<open>occurs_at t (g @ CHR ''\<newline>'' # Q) k\<close>
        using occurs_at_after[of t \<open>P @ ''\<newline>''\<close> \<open>g @ ''\<newline>'' @ Q\<close> k] by simp
      from occurs_before_sep[OF this assms(3) k(2)] assms(1) show False by blast
    qed
  qed
  from 1 2 show ?thesis by (auto simp: first_at_def)
qed

lemma first_close_nl_after_body:
  assumes \<open>absent_from literal_close_nl (g @ ''\<newline>'') m\<close> \<open>prefix literal_close_nl Q\<close>
    \<open>m \<le> length g\<close>
  shows \<open>first_at literal_close_nl (P @ ''\<newline>'' @ g @ ''\<newline>'' @ Q)
           (length P + 1 + m) (length P + length g + 2)\<close>
proof -
  let ?N = \<open>P @ ''\<newline>'' @ g @ ''\<newline>'' @ Q\<close>
  have \<open>occurs_at literal_close_nl ((P @ ''\<newline>'' @ g @ ''\<newline>'') @ Q)
          (length (P @ ''\<newline>'' @ g @ ''\<newline>'') + 0)\<close>
    unfolding occurs_at_after using assms(2) by (simp add: occurs_at_def)
  then have 1: \<open>occurs_at literal_close_nl ?N (length P + length g + 2)\<close> by simp
  have 2: \<open>\<not> occurs_at literal_close_nl ?N j\<close>
    if j: \<open>length P + 1 + m \<le> j\<close> \<open>j < length P + length g + 2\<close> for j
  proof
    assume a: \<open>occurs_at literal_close_nl ?N j\<close>
    define k where \<open>k = j - length P - 1\<close>
    have k: \<open>j = length (P @ ''\<newline>'') + k\<close> \<open>k \<le> length g\<close> \<open>m \<le> k\<close>
      using j by (simp_all add: k_def)
    from a k(1) have b: \<open>occurs_at literal_close_nl (g @ CHR ''\<newline>'' # Q) k\<close>
      using occurs_at_after[of literal_close_nl \<open>P @ ''\<newline>''\<close> \<open>g @ ''\<newline>'' @ Q\<close> k] by simp
    then have \<open>occurs_at literal_close (g @ CHR ''\<newline>'' # Q) k\<close>
      by (simp add: literal_close_nl_eq occurs_at_append)
    from occurs_before_sep[OF this literal_close_no_newline k(2)]
    have \<open>k + length literal_close \<le> length g\<close> by (rule occurs_at_le)
    then have kl: \<open>k + length literal_close_nl \<le> length (g @ ''\<newline>'')\<close>
      by (simp add: literal_close_nl_def literal_close_def)
    from b have \<open>occurs_at literal_close_nl ((g @ ''\<newline>'') @ Q) k\<close> by simp
    from occurs_at_within[OF this kl] assms(1) k(3) show False
      by (simp add: absent_from_iff)
  qed
  from 1 2 assms(3) show ?thesis by (auto simp: first_at_def)
qed

text \<open>Stripping: the result is an inner part of the text, and stripping it again changes nothing.\<close>

lemma strip_decompose:
  \<open>\<exists>p q. s = p @ strip s @ q \<and> (\<forall>x\<in>set p. is_space x) \<and> (\<forall>x\<in>set q. is_space x)\<close>
proof -
  let ?y = \<open>dropWhile is_space s\<close>
  let ?q = \<open>rev (takeWhile is_space (rev ?y))\<close>
  have \<open>rev (dropWhile is_space (rev ?y)) @ ?q =
          rev (takeWhile is_space (rev ?y) @ dropWhile is_space (rev ?y))\<close>
    by (simp only: rev_append)
  also have \<open>\<dots> = rev (rev ?y)\<close> by (simp only: takeWhile_dropWhile_id)
  finally have y: \<open>?y = strip s @ ?q\<close>
    by (simp add: strip_def lstrip_def rstrip_def)
  have \<open>s = takeWhile is_space s @ ?y\<close> by simp
  with y have \<open>s = takeWhile is_space s @ strip s @ ?q\<close> by simp
  moreover have \<open>\<forall>x\<in>set (takeWhile is_space s). is_space x\<close> by (rule spaces_takeWhile)
  moreover have \<open>\<forall>x\<in>set ?q. is_space x\<close> using spaces_takeWhile[of \<open>rev ?y\<close>] by simp
  ultimately show ?thesis by blast
qed

lemma strip_strip: \<open>strip (strip s) = strip s\<close>
proof -
  from strip_decompose[of s] obtain p q where
    \<open>s = p @ strip s @ q\<close> \<open>\<forall>x\<in>set p. is_space x\<close> \<open>\<forall>x\<in>set q. is_space x\<close> by blast
  then show ?thesis using strip_pad[of p q \<open>strip s\<close>] by simp
qed

lemma occurs_in_strip:
  assumes \<open>occurs_at t (strip s) k\<close>
  shows \<open>\<exists>j. occurs_at t s j\<close>
proof -
  from strip_decompose[of s] obtain p q where s: \<open>s = p @ strip s @ q\<close> by blast
  have \<open>occurs_at t (strip s @ q) k\<close> using assms by (rule occurs_at_extend)
  then have \<open>occurs_at t (p @ strip s @ q) (length p + k)\<close> by (simp only: occurs_at_after)
  with s show ?thesis by metis
qed


section \<open>Running the update twice, and reading back what it wrote\<close>

lemma update_main_success_iff:
  \<open>update_main files = (printed, 0, files') \<longleftrightarrow>
     (\<exists>standalone. files ''config_interface.html'' = Some standalone \<and>
        update_esp32_html ''swim_pacer.ino'' (strip standalone) files = (Inr (), files') \<and>
        printed = [Extracting, Extracted (length (strip standalone)), Updating, Updated,
                   ShouldBeSynchronized])\<close>
  by (auto simp: update_main_def extract_html_content_def
      split: option.splits sum.splits prod.splits)

lemma end_marker_props: \<open>end_marker \<noteq> []\<close> \<open>hd end_marker \<noteq> CHR ''\<newline>''\<close>
  by (simp_all add: end_marker_def)

lemma literal_close_prefix_nl: \<open>prefix literal_close_nl Q \<Longrightarrow> prefix literal_close Q\<close>
  by (auto simp: literal_close_nl_eq prefix_def)

lemma update_main_again:
  assumes \<open>update_main files = (printed, 0, files')\<close>
    and \<open>files ''config_interface.html'' = Some standalone\<close>
    and \<open>first_at end_marker (strip standalone) 0 m\<close>
    and \<open>absent_from literal_close_nl (strip standalone @ ''\<newline>'') m\<close>
  shows \<open>update_main files' = (printed, 0, files')\<close>
proof -
  let ?g = \<open>strip standalone\<close>
  from assms(1,2) have pr: \<open>printed = [Extracting, Extracted (length ?g), Updating, Updated,
                   ShouldBeSynchronized]\<close>
    by (auto simp: update_main_success_iff)
  from update_main_ok[OF assms(1)] assms(2) obtain ino a e c where
    ino: \<open>files ''swim_pacer.ino'' = Some ino\<close>
    and a: \<open>first_at literal_open ino 0 a\<close>
    and c: \<open>first_at literal_close_nl ino e c\<close>
    and f': \<open>files' = files(''swim_pacer.ino'' \<mapsto>
              take (a + length literal_open) ino @ ''\<newline>'' @ ?g @ ''\<newline>'' @ drop c ino)\<close>
    by auto
  let ?P = \<open>take (a + length literal_open) ino\<close>
  let ?Q = \<open>drop c ino\<close>
  let ?N = \<open>?P @ ''\<newline>'' @ ?g @ ''\<newline>'' @ ?Q\<close>
  have lP: \<open>length ?P = a + length literal_open\<close>
    using occurs_at_le[OF first_at_occurs[OF a]] by simp
  have pQ: \<open>prefix literal_close_nl ?Q\<close>
    using first_at_occurs[OF c] by (simp add: occurs_at_def)
  have mg: \<open>m \<le> length ?g\<close>
    using occurs_at_le[OF first_at_occurs[OF assms(3)]] by simp
  have 1: \<open>first_at literal_open ?N 0 a\<close>
    by (rule first_at_in_prefix[OF a]) simp
  have 2: \<open>first_at end_marker ?N (a + length literal_open) (a + length literal_open + 1 + m)\<close>
    using first_in_body[OF assms(3) end_marker_props, of ?P ?Q] by (simp only: lP)
  have 3: \<open>first_at literal_close_nl ?N (a + length literal_open + 1 + m)
             (a + length literal_open + length ?g + 2)\<close>
    using first_close_nl_after_body[OF assms(4) pQ mg, of ?P] by (simp only: lP)
  have fN: \<open>files' ''swim_pacer.ino'' = Some ?N\<close> by (simp add: f')
  have tN: \<open>take (a + length literal_open) ?N = ?P\<close>
    using lP by simp
  have \<open>drop (length ?P + length ?g + 2) ?N = ?Q\<close> by simp
  then have dN: \<open>drop (a + length literal_open + length ?g + 2) ?N = ?Q\<close>
    by (simp only: lP)
  have \<open>update_esp32_html ''swim_pacer.ino'' ?g files' =
          (Inr (), files'(''swim_pacer.ino'' \<mapsto> ?N))\<close>
    using update_ok[where files=files' and h=\<open>?g\<close>, OF fN 1 2 3]
    by (simp only: tN dN)
  moreover have \<open>files'(''swim_pacer.ino'' \<mapsto> ?N) = files'\<close>
    by (simp add: f')
  moreover have \<open>files' ''config_interface.html'' = Some standalone\<close>
    using assms(2) by (simp add: f')
  ultimately show ?thesis
    by (simp add: update_main_success_iff pr)
qed

lemma update_then_extract:
  assumes \<open>update_main files = (printed, 0, files')\<close>
    and \<open>files ''config_interface.html'' = Some standalone\<close>
    and \<open>files ''swim_pacer.ino'' = Some ino\<close>
    and \<open>first_at handler_open ino 0 h\<close>
    and \<open>first_at literal_open ino 0 a\<close>
    and \<open>h + length handler_open \<le> a\<close>
    and \<open>absent_from literal_close standalone 0\<close>
  shows \<open>extract_html_from_ino files' = ([], Some (strip standalone))\<close>
proof -
  let ?g = \<open>strip standalone\<close>
  from update_main_ok[OF assms(1)] assms(2,3) obtain a' e c where
    a': \<open>first_at literal_open ino 0 a'\<close>
    and c: \<open>first_at literal_close_nl ino e c\<close>
    and f': \<open>files' = files(''swim_pacer.ino'' \<mapsto>
              take (a' + length literal_open) ino @ ''\<newline>'' @ ?g @ ''\<newline>'' @ drop c ino)\<close>
    by auto
  have aa: \<open>a' = a\<close> using a' assms(5) by (rule first_at_unique)
  let ?P = \<open>take (a + length literal_open) ino\<close>
  let ?Q = \<open>drop c ino\<close>
  let ?N = \<open>?P @ ''\<newline>'' @ ?g @ ''\<newline>'' @ ?Q\<close>
  have lP: \<open>length ?P = a + length literal_open\<close>
    using occurs_at_le[OF first_at_occurs[OF assms(5)]] by simp
  have pQ: \<open>prefix literal_close ?Q\<close>
    using first_at_occurs[OF c] by (simp add: occurs_at_def literal_close_prefix_nl)
  have no: \<open>\<forall>j. \<not> occurs_at literal_close ?g j\<close>
    using assms(7) occurs_in_strip[of literal_close standalone] by (auto simp: absent_from_iff)
  have 1: \<open>first_at handler_open ?N 0 h\<close>
    by (rule first_at_in_prefix[OF assms(4)]) (use assms(6) in simp)
  have 2: \<open>first_at literal_open ?N (h + length handler_open) a\<close>
    by (rule first_at_in_prefix_from[OF assms(5)]) (use assms(6) in simp_all)
  have 3: \<open>first_at literal_close ?N (a + length literal_open)
             (a + length literal_open + length ?g + 2)\<close>
    using first_close_after_body[OF no literal_close_props(1) literal_close_no_newline pQ, of ?P]
    by (simp only: lP)
  have fN: \<open>files' ''swim_pacer.ino'' = Some ?N\<close> by (simp add: f' aa)
  have \<open>drop (length ?P) ?N = ''\<newline>'' @ ?g @ ''\<newline>'' @ ?Q\<close> by simp
  then have \<open>take (length ?g + 2) (drop (length ?P) ?N) = ''\<newline>'' @ ?g @ ''\<newline>''\<close>
    by simp
  then have body: \<open>take (a + length literal_open + length ?g + 2 - (a + length literal_open))
                     (drop (a + length literal_open) ?N) = ''\<newline>'' @ ?g @ ''\<newline>''\<close>
    by (simp only: lP) simp
  have \<open>strip (''\<newline>'' @ ?g @ ''\<newline>'') = strip ?g\<close>
    by (rule strip_pad) (simp_all add: is_space_def)
  then have \<open>strip (''\<newline>'' @ ?g @ ''\<newline>'') = ?g\<close> by (simp only: strip_strip)
  with ino_found[where files=files', OF fN 1 2 3] body show ?thesis by simp
qed

lemmas all_defs = eval_defs check_defs files_hi_minimal_def files_x_handler_def ino_handler_def


section \<open>The stages of the normalizer\<close>

lemma star_alone: \<open>rmatch [Star c] s i m = Some (i + length (takeWhile (in_class c) s), m)\<close>
  by (rule star_takes_all) simp

lemma spaces_match:
  \<open>rmatch spaces_pattern s i m =
     (case s of [] \<Rightarrow> None
      | x # xs \<Rightarrow> if is_space x then Some (Suc i + length (takeWhile is_space xs), m) else None)\<close>
  by (cases s) (simp_all add: spaces_pattern_def star_alone)

lemma collapse_Nil [simp]: \<open>re_sub spaces_pattern r [] = []\<close>
  by (simp add: spaces_match)

lemma collapse_Cons:
  \<open>re_sub spaces_pattern r (x # xs) =
     (if is_space x then r @ re_sub spaces_pattern r (dropWhile is_space xs)
      else x # re_sub spaces_pattern r xs)\<close>
  by (simp add: spaces_match dropWhile_eq_drop)

lemma gap_match:
  \<open>rmatch gap_pattern (c # cs) i m =
     (if c = CHR ''>'' \<and> gapped cs
      then Some (i + 2 + length (takeWhile is_space cs), m) else None)\<close>
proof (cases \<open>c = CHR ''>''\<close>)
  case False
  then show ?thesis by (simp add: gap_pattern_def)
next
  case True
  show ?thesis
  proof (cases cs)
    case Nil
    with True show ?thesis by (simp add: gap_pattern_def gapped_def)
  next
    case (Cons x xs)
    have t: \<open>rmatch [Star Space, Lit ''<''] xs j m =
        (if prefix ''<'' (dropWhile is_space xs)
         then Some (j + length (takeWhile is_space xs) + length ''<'', m) else None)\<close> for j
      by (rule tail_match) (simp_all add: is_space_def)
    show ?thesis using True Cons
      by (simp add: gap_pattern_def gapped_def t)
  qed
qed

lemma gap_match_Nil: \<open>rmatch gap_pattern [] i m = None\<close>
  by (simp add: gap_pattern_def)

lemma tighten_Nil [simp]: \<open>re_sub gap_pattern r [] = []\<close>
  by (simp add: gap_match_Nil)

lemma tighten_Cons:
  \<open>re_sub gap_pattern r (c # cs) =
     (if c = CHR ''>'' \<and> gapped cs
      then r @ re_sub gap_pattern r (tl (dropWhile is_space cs))
      else c # re_sub gap_pattern r cs)\<close>
proof (cases \<open>c = CHR ''>'' \<and> gapped cs\<close>)
  case False
  then show ?thesis by (auto simp: gap_match)
next
  case True
  have \<open>drop (2 + length (takeWhile is_space cs)) (c # cs) = tl (dropWhile is_space cs)\<close>
    by (simp add: dropWhile_eq_drop drop_Suc tl_drop)
  with True show ?thesis by (simp add: gap_match)
qed

declare re_sub.simps [simp del]

lemma space_not_gt: \<open>is_space x \<Longrightarrow> x \<noteq> CHR ''>''\<close>
  by (auto simp: is_space_def)

lemma space_is_space: \<open>is_space CHR '' ''\<close>
  by (simp add: is_space_def)

text \<open>Collapsing whitespace.\<close>

lemma collapse_head:
  assumes \<open>s = [] \<or> \<not> is_space (hd s)\<close>
  shows \<open>re_sub spaces_pattern '' '' s = [] \<or> \<not> is_space (hd (re_sub spaces_pattern '' '' s))\<close>
  using assms by (cases s) (simp_all add: collapse_Cons)

lemma dropWhile_head: \<open>dropWhile P s = [] \<or> \<not> P (hd (dropWhile P s))\<close>
  using hd_dropWhile by blast

lemma collapse_single_spaced: \<open>single_spaced (re_sub spaces_pattern '' '' s)\<close>
proof (induction \<open>length s\<close> arbitrary: s rule: less_induct)
  case less
  show ?case
  proof (cases s)
    case Nil
    then show ?thesis by simp
  next
    case (Cons x xs)
    show ?thesis
    proof (cases \<open>is_space x\<close>)
      case False
      have \<open>single_spaced (re_sub spaces_pattern '' '' xs)\<close>
        using less[of xs] Cons by simp
      with False Cons show ?thesis by (simp add: collapse_Cons)
    next
      case True
      let ?t = \<open>re_sub spaces_pattern '' '' (dropWhile is_space xs)\<close>
      have \<open>length (dropWhile is_space xs) < length s\<close>
        using Cons length_dropWhile_le[of is_space xs] by simp
      then have \<open>single_spaced ?t\<close> by (rule less)
      moreover have \<open>?t = [] \<or> \<not> is_space (hd ?t)\<close>
        by (rule collapse_head) (rule dropWhile_head)
      ultimately show ?thesis using True Cons by (simp add: collapse_Cons)
    qed
  qed
qed

lemma collapse_fixed: \<open>single_spaced y \<Longrightarrow> re_sub spaces_pattern '' '' y = y\<close>
proof (induction y)
  case Nil
  show ?case by simp
next
  case (Cons x xs)
  show ?case
  proof (cases \<open>is_space x\<close>)
    case False
    with Cons show ?thesis by (simp add: collapse_Cons)
  next
    case True
    with Cons.prems have x: \<open>x = CHR '' ''\<close> and h: \<open>xs = [] \<or> \<not> is_space (hd xs)\<close> by simp_all
    from h have \<open>dropWhile is_space xs = xs\<close> by (cases xs) auto
    with Cons True x show ?thesis by (simp add: collapse_Cons)
  qed
qed

lemma single_spaced_append:
  \<open>single_spaced (a @ b) \<Longrightarrow> single_spaced a \<and> single_spaced b\<close>
proof (induction a)
  case Nil
  then show ?case by simp
next
  case (Cons x a)
  then show ?case by (cases a) auto
qed

text \<open>Closing the gaps between tags.\<close>

lemma tighten_head: \<open>\<exists>t. re_sub gap_pattern ''><'' (c # cs) = c # t\<close>
  by (simp add: tighten_Cons)

lemma tighten_empty: \<open>re_sub gap_pattern ''><'' s = [] \<longleftrightarrow> s = []\<close>
  using tighten_head by (cases s) (simp, metis list.distinct(1))

lemma tighten_hd: \<open>hd (re_sub gap_pattern ''><'' s) = hd s\<close>
proof (cases s)
  case Nil
  then show ?thesis by simp
next
  case (Cons c cs)
  with tighten_head[of c cs] show ?thesis by auto
qed

lemma tighten_single_spaced:
  \<open>single_spaced y \<Longrightarrow> single_spaced (re_sub gap_pattern ''><'' y)\<close>
proof (induction \<open>length y\<close> arbitrary: y rule: less_induct)
  case less
  show ?case
  proof (cases y)
    case Nil
    then show ?thesis by simp
  next
    case (Cons c cs)
    show ?thesis
    proof (cases \<open>c = CHR ''>'' \<and> gapped cs\<close>)
      case True
      let ?rest = \<open>tl (dropWhile is_space cs)\<close>
      have r: \<open>?rest = drop (Suc (length (takeWhile is_space cs))) cs\<close>
        by (simp add: dropWhile_eq_drop drop_Suc tl_drop)
      have \<open>cs = take (Suc (length (takeWhile is_space cs))) cs @ ?rest\<close>
        by (simp only: r append_take_drop_id)
      moreover have \<open>single_spaced cs\<close> using less.prems Cons by simp
      ultimately have \<open>single_spaced ?rest\<close> using single_spaced_append by metis
      moreover have \<open>length ?rest < length y\<close> using Cons r by simp
      ultimately have \<open>single_spaced (re_sub gap_pattern ''><'' ?rest)\<close> by (rule less(1)[rotated])
      with True Cons show ?thesis by (simp add: tighten_Cons is_space_def)
    next
      case False
      have ss: \<open>single_spaced cs\<close> using less.prems Cons by simp
      then have t: \<open>single_spaced (re_sub gap_pattern ''><'' cs)\<close>
        using less(1)[of cs] Cons by simp
      have \<open>is_space c \<longrightarrow> c = CHR '' '' \<and>
              (re_sub gap_pattern ''><'' cs = [] \<or> \<not> is_space (hd (re_sub gap_pattern ''><'' cs)))\<close>
        using less.prems Cons by (simp add: tighten_empty tighten_hd)
      with t False Cons show ?thesis by (auto simp: tighten_Cons)
    qed
  qed
qed

lemma tighten_dropWhile:
  \<open>dropWhile is_space (re_sub gap_pattern ''><'' s) = re_sub gap_pattern ''><'' (dropWhile is_space s)\<close>
proof (induction s)
  case Nil
  show ?case by simp
next
  case (Cons x xs)
  show ?case
  proof (cases \<open>is_space x\<close>)
    case True
    then have \<open>x \<noteq> CHR ''>''\<close> by (rule space_not_gt)
    with True Cons show ?thesis by (simp add: tighten_Cons)
  next
    case False
    from tighten_head[of x xs] obtain t where \<open>re_sub gap_pattern ''><'' (x # xs) = x # t\<close> by blast
    with False show ?thesis by simp
  qed
qed

lemma prefix_lt_iff: \<open>prefix ''<'' s \<longleftrightarrow> s \<noteq> [] \<and> hd s = CHR ''<''\<close>
  by (cases s) auto

lemma gapped_tighten: \<open>gapped (re_sub gap_pattern ''><'' cs) \<longleftrightarrow> gapped cs\<close>
  by (simp add: gapped_def tighten_dropWhile prefix_lt_iff tighten_empty tighten_hd)

lemma tighten_gap_free: \<open>gap_free (re_sub gap_pattern ''><'' y)\<close>
proof (induction \<open>length y\<close> arbitrary: y rule: less_induct)
  case less
  show ?case
  proof (cases y)
    case Nil
    then show ?thesis by simp
  next
    case (Cons c cs)
    show ?thesis
    proof (cases \<open>c = CHR ''>'' \<and> gapped cs\<close>)
      case True
      let ?rest = \<open>tl (dropWhile is_space cs)\<close>
      have \<open>length ?rest < length y\<close>
        using Cons length_dropWhile_le[of is_space cs] by simp
      then have \<open>gap_free (re_sub gap_pattern ''><'' ?rest)\<close> by (rule less)
      with True Cons show ?thesis
        by (simp add: tighten_Cons gapped_def is_space_def)
    next
      case False
      have \<open>gap_free (re_sub gap_pattern ''><'' cs)\<close> using less[of cs] Cons by simp
      with False Cons show ?thesis by (auto simp: tighten_Cons gapped_tighten)
    qed
  qed
qed

lemma tighten_fixed: \<open>gap_free y \<Longrightarrow> re_sub gap_pattern ''><'' y = y\<close>
  by (induction y) (auto simp: tighten_Cons)

lemma gapped_append: \<open>gapped a \<Longrightarrow> gapped (a @ b)\<close>
proof -
  assume g: \<open>gapped a\<close>
  then have \<open>dropWhile is_space a \<noteq> []\<close> by (simp add: gapped_def prefix_lt_iff)
  then obtain x where \<open>x \<in> set a\<close> \<open>\<not> is_space x\<close>
    by (metis dropWhile_eq_Nil_conv)
  then have \<open>dropWhile is_space (a @ b) = dropWhile is_space a @ b\<close>
    by (simp add: dropWhile_append1)
  with g show ?thesis by (auto simp: gapped_def)
qed

lemma gap_free_append: \<open>gap_free (a @ b) \<Longrightarrow> gap_free a \<and> gap_free b\<close>
proof (induction a)
  case Nil
  then show ?case by simp
next
  case (Cons x a)
  then show ?case using gapped_append[of a b] by auto
qed

text \<open>The three whitespace stages together.\<close>

lemma whitespace_normal_form:
  assumes \<open>y = strip (re_sub gap_pattern ''><'' (re_sub spaces_pattern '' '' z))\<close>
  shows \<open>single_spaced y \<and> gap_free y \<and> strip y = y\<close>
proof -
  let ?u = \<open>re_sub gap_pattern ''><'' (re_sub spaces_pattern '' '' z)\<close>
  have u: \<open>single_spaced ?u\<close> \<open>gap_free ?u\<close>
    by (simp_all add: tighten_single_spaced collapse_single_spaced tighten_gap_free)
  from strip_decompose[of ?u] obtain p q where d: \<open>?u = p @ strip ?u @ q\<close> by blast
  from u(1) d have \<open>single_spaced (strip ?u)\<close>
    using single_spaced_append by metis
  moreover from u(2) d have \<open>gap_free (strip ?u)\<close>
    using gap_free_append by metis
  ultimately show ?thesis using assms by (simp add: strip_strip)
qed

lemma whitespace_fixed:
  assumes \<open>single_spaced y\<close> \<open>gap_free y\<close> \<open>strip y = y\<close>
  shows \<open>strip (re_sub gap_pattern ''><'' (re_sub spaces_pattern '' '' y)) = y\<close>
  using assms by (simp add: collapse_fixed tighten_fixed)

section \<open>The splicer\<close>

text \<open>
  Claim C4, as amended.  When the update operation returns 0, both files exist and the
  firmware file is rewritten to: its text up to the end of the first literal-opening
  token, a line break, the text of the standalone file with leading and trailing
  whitespace removed (the whole file, sentinel lines included), a line break, and its
  text from the closing token on, where the closing token is the first one followed by a
  line break at or after the first end marker that follows the opening token.  No other
  file changes.
\<close>

theorem update_main_splices_trimmed_file:
  assumes \<open>update_main files = (printed, 0, files')\<close>
  shows \<open>\<exists>standalone ino a e c.
           files ''config_interface.html'' = Some standalone \<and>
           files ''swim_pacer.ino'' = Some ino \<and>
           first_at literal_open ino 0 a \<and>
           first_at end_marker ino (a + length literal_open) e \<and>
           first_at literal_close_nl ino e c \<and>
           files' = files(''swim_pacer.ino'' \<mapsto>
                      take (a + length literal_open) ino @ ''\<newline>'' @ strip standalone @
                      ''\<newline>'' @ drop c ino)\<close>
  using assms by (rule update_main_ok)

text \<open>The theorem at the files \<open>files_x\<close>.\<close>

theorem update_main_splices_trimmed_file_witness:
  \<open>update_main files_x =
     ([Extracting, Extracted 1, Updating, Updated, ShouldBeSynchronized], 0,
      files_x(''swim_pacer.ino'' \<mapsto> literal_open @ ''\<newline>x\<newline>'' @ literal_close_nl)) \<and>
   (\<exists>standalone ino a e c.
      files_x ''config_interface.html'' = Some standalone \<and>
      files_x ''swim_pacer.ino'' = Some ino \<and>
      first_at literal_open ino 0 a \<and>
      first_at end_marker ino (a + length literal_open) e \<and>
      first_at literal_close_nl ino e c \<and>
      files_x(''swim_pacer.ino'' \<mapsto> literal_open @ ''\<newline>x\<newline>'' @ literal_close_nl) =
      files_x(''swim_pacer.ino'' \<mapsto>
        take (a + length literal_open) ino @ ''\<newline>'' @ strip standalone @
        ''\<newline>'' @ drop c ino))\<close>
proof -
  have h: \<open>update_main files_x =
     ([Extracting, Extracted 1, Updating, Updated, ShouldBeSynchronized], 0,
      files_x(''swim_pacer.ino'' \<mapsto> literal_open @ ''\<newline>x\<newline>'' @ literal_close_nl))\<close>
    by (simp add: eval_defs)
  from update_main_splices_trimmed_file[OF h] h show ?thesis by simp
qed

text \<open>
  Claim C4 as stated takes the standalone file verbatim.  The file \<open>standalone_x\<close> ends
  in a line break, which \<open>extract_html_content\<close> strips before the splice.
\<close>

theorem update_verbatim_counterexample:
  \<open>files_x ''config_interface.html'' = Some standalone_x \<and>
   files_x ''swim_pacer.ino'' = Some ino_minimal \<and>
   first_at literal_open ino_minimal 0 0 \<and>
   first_at end_marker ino_minimal 17 17 \<and>
   first_at literal_close_nl ino_minimal 17 75 \<and>
   fst (snd (update_main files_x)) = 0 \<and>
   snd (snd (update_main files_x)) ''swim_pacer.ino'' =
     Some (take 17 ino_minimal @ ''\<newline>'' @ ''x'' @ ''\<newline>'' @ drop 75 ino_minimal) \<and>
   snd (snd (update_main files_x)) ''swim_pacer.ino'' \<noteq>
     Some (take 17 ino_minimal @ ''\<newline>'' @ standalone_x @ ''\<newline>'' @ drop 75 ino_minimal)\<close>
proof -
  have \<open>first_at literal_open ino_minimal 0 0\<close>
    by (rule first_atI) (simp_all add: doc_defs)
  moreover have \<open>first_at end_marker ino_minimal 17 17\<close>
    by (rule first_atI) (simp_all add: doc_defs)
  moreover have \<open>first_at literal_close_nl ino_minimal 17 75\<close>
    by (rule first_atI) (simp_all add: doc_defs)
  moreover have \<open>update_main files_x =
     ([Extracting, Extracted 1, Updating, Updated, ShouldBeSynchronized], 0,
      files_x(''swim_pacer.ino'' \<mapsto> literal_open @ ''\<newline>x\<newline>'' @ literal_close_nl))\<close>
    by (simp add: eval_defs)
  moreover have \<open>take 17 ino_minimal = literal_open\<close> \<open>drop 75 ino_minimal = literal_close_nl\<close>
    by (simp_all add: doc_defs)
  ultimately show ?thesis by (simp add: files_x_def standalone_x_def)
qed

text \<open>
  Claim C6, as amended.  For an existing firmware file the splicer raises \<open>ValueError\<close>
  exactly when the literal-opening token is absent, or the end marker is absent at or
  after the end of its first occurrence, or no closing token followed by a line break
  stands at or after the first such end marker.  Whenever the splicer raises, the file
  system is the one it was given: nothing has been written.
\<close>

theorem update_fails_iff:
  assumes \<open>files ino_file = Some ino\<close>
  shows \<open>((\<exists>msg. fst (update_esp32_html ino_file html files) = Inl (ValueError msg)) \<longleftrightarrow>
            absent_from literal_open ino 0 \<or>
            (\<exists>a. first_at literal_open ino 0 a \<and>
                 absent_from end_marker ino (a + length literal_open)) \<or>
            (\<exists>a e. first_at literal_open ino 0 a \<and>
                   first_at end_marker ino (a + length literal_open) e \<and>
                   absent_from literal_close_nl ino e)) \<and>
         (\<forall>err. fst (update_esp32_html ino_file html files) = Inl err \<longrightarrow>
                snd (update_esp32_html ino_file html files) = files)\<close>
  using assms
proof (cases rule: update_cases[where files=files and f=ino_file and h=html])
  case no_open
  then show ?thesis by auto
next
  case (no_marker a)
  then show ?thesis by auto
next
  case (no_close a e)
  then show ?thesis by auto
next
  case (ok a e c)
  have \<open>\<not> absent_from literal_open ino 0\<close>
    using ok(1) first_at_not_absent by blast
  moreover have \<open>\<not> absent_from end_marker ino (a' + length literal_open)\<close>
    if \<open>first_at literal_open ino 0 a'\<close> for a'
    using that ok(1,2) first_at_unique first_at_not_absent by blast
  moreover have \<open>\<not> absent_from literal_close_nl ino e'\<close>
    if \<open>first_at literal_open ino 0 a'\<close> \<open>first_at end_marker ino (a' + length literal_open) e'\<close>
    for a' e'
    using that ok(1,2,3) first_at_unique first_at_not_absent by metis
  ultimately show ?thesis using ok(4) by auto
qed

text \<open>The theorem at a firmware file whose literal has no end marker.\<close>

theorem update_fails_iff_witness:
  \<open>files_no_marker ''swim_pacer.ino'' = Some ino_no_marker \<and>
   first_at literal_open ino_no_marker 0 0 \<and>
   absent_from end_marker ino_no_marker (0 + length literal_open) \<and>
   (\<exists>msg. fst (update_esp32_html ''swim_pacer.ino'' ''x'' files_no_marker) =
      Inl (ValueError msg)) \<and>
   snd (update_esp32_html ''swim_pacer.ino'' ''x'' files_no_marker) =
     files_no_marker\<close>
proof -
  have h: \<open>files_no_marker ''swim_pacer.ino'' = Some ino_no_marker\<close>
    by (simp add: files_no_marker_def)
  have a: \<open>first_at literal_open ino_no_marker 0 0\<close>
    by (rule first_atI) (simp_all add: doc_defs)
  have b: \<open>absent_from end_marker ino_no_marker (0 + length literal_open)\<close>
    by (rule absent_fromI) (simp_all add: doc_defs)
  from update_fails_iff[where files=files_no_marker and ino_file=\<open>''swim_pacer.ino''\<close> and html=\<open>''x''\<close>, OF h] a b
  have \<open>(\<exists>msg. fst (update_esp32_html ''swim_pacer.ino'' ''x'' files_no_marker) =
      Inl (ValueError msg))\<close>
    and \<open>\<forall>err. fst (update_esp32_html ''swim_pacer.ino'' ''x'' files_no_marker) = Inl err \<longrightarrow>
      snd (update_esp32_html ''swim_pacer.ino'' ''x'' files_no_marker) =
     files_no_marker\<close>
    by blast+
  with h a b show ?thesis by blast
qed

text \<open>
  Claim C6 as stated lets the splicer fail only when a token is missing.  The file
  \<open>ino_no_newline\<close> ends right after the closing token: all three tokens are there,
  and the splicer raises.
\<close>

theorem update_fails_with_closing_token_counterexample:
  \<open>occurs_at literal_open ino_no_newline 0 \<and>
   occurs_at end_marker ino_no_newline (0 + length literal_open) \<and>
   occurs_at literal_close ino_no_newline 75 \<and>
   fst (update_esp32_html ''swim_pacer.ino'' ''x'' files_no_newline) =
     Inl (ValueError ''Could not find HTML string end in ESP32 file'')\<close>
  by (simp add: occurs_at_def eval_defs)

text \<open>
  Claim C10.  Let the firmware file hold the literal-opening token and, after it, the
  end marker.  If no closing token at or after the end marker is immediately followed
  by a line break, the splicer raises \<open>ValueError\<close> and leaves the file system as it
  was; and whenever the splicer succeeds, a closing token immediately followed by a line
  break stands at or after the end marker.
\<close>

theorem closing_token_needs_newline:
  assumes \<open>files ino_file = Some ino\<close>
    and \<open>first_at literal_open ino 0 a\<close>
    and \<open>first_at end_marker ino (a + length literal_open) e\<close>
  shows \<open>((\<forall>j\<ge>e. occurs_at literal_close ino j \<longrightarrow>
                  \<not> occurs_at ''\<newline>'' ino (j + length literal_close)) \<longrightarrow>
          update_esp32_html ino_file html files =
            (Inl (ValueError ''Could not find HTML string end in ESP32 file''), files)) \<and>
         (fst (update_esp32_html ino_file html files) = Inr () \<longrightarrow>
          (\<exists>c\<ge>e. occurs_at literal_close ino c \<and>
                  occurs_at ''\<newline>'' ino (c + length literal_close)))\<close>
proof (intro conjI impI)
  assume \<open>\<forall>j\<ge>e. occurs_at literal_close ino j \<longrightarrow>
                  \<not> occurs_at ''\<newline>'' ino (j + length literal_close)\<close>
  then have \<open>absent_from literal_close_nl ino e\<close>
    by (simp only: absent_close_nl_iff)
  with assms show \<open>update_esp32_html ino_file html files =
            (Inl (ValueError ''Could not find HTML string end in ESP32 file''), files)\<close>
    by (rule update_no_close)
next
  assume ok: \<open>fst (update_esp32_html ino_file html files) = Inr ()\<close>
  have \<open>\<not> absent_from literal_close_nl ino e\<close>
  proof
    assume \<open>absent_from literal_close_nl ino e\<close>
    with assms have \<open>update_esp32_html ino_file html files =
            (Inl (ValueError ''Could not find HTML string end in ESP32 file''), files)\<close>
      by (rule update_no_close)
    with ok show False by simp
  qed
  then show \<open>\<exists>c\<ge>e. occurs_at literal_close ino c \<and>
                  occurs_at ''\<newline>'' ino (c + length literal_close)\<close>
    by (simp only: absent_close_nl_iff) blast
qed

text \<open>
  The theorem at a firmware file whose closing token is followed by a comment on the
  same line.
\<close>

theorem closing_token_needs_newline_witness:
  \<open>files_trailing_comment ''swim_pacer.ino'' = Some ino_trailing_comment \<and>
   first_at literal_open ino_trailing_comment 0 0 \<and>
   first_at end_marker ino_trailing_comment (0 + length literal_open) 17 \<and>
   occurs_at literal_close ino_trailing_comment 75 \<and>
   absent_from literal_close_nl ino_trailing_comment 17 \<and>
   update_esp32_html ''swim_pacer.ino'' ''x'' files_trailing_comment =
     (Inl (ValueError ''Could not find HTML string end in ESP32 file''),
      files_trailing_comment)\<close>
proof -
  have h: \<open>files_trailing_comment ''swim_pacer.ino'' =
      Some ino_trailing_comment\<close>
    by (simp add: files_trailing_comment_def)
  have a: \<open>first_at literal_open ino_trailing_comment 0 0\<close>
    by (rule first_atI) (simp_all add: doc_defs)
  have b: \<open>first_at end_marker ino_trailing_comment (0 + length literal_open) 17\<close>
    by (rule first_atI) (simp_all add: doc_defs)
  have c: \<open>occurs_at literal_close ino_trailing_comment 75\<close>
    by (simp add: occurs_at_def doc_defs)
  have d: \<open>absent_from literal_close_nl ino_trailing_comment 17\<close>
    by (rule absent_fromI) (simp_all add: doc_defs)
  then have d': \<open>\<forall>j\<ge>17. occurs_at literal_close ino_trailing_comment j \<longrightarrow>
      \<not> occurs_at ''\<newline>'' ino_trailing_comment (j + length literal_close)\<close>
    by (simp only: absent_close_nl_iff)
  from closing_token_needs_newline[where files=files_trailing_comment and ino_file=\<open>''swim_pacer.ino''\<close> and html=\<open>''x''\<close>, OF h a b] d'
  have \<open>update_esp32_html ''swim_pacer.ino'' ''x'' files_trailing_comment =
     (Inl (ValueError ''Could not find HTML string end in ESP32 file''),
      files_trailing_comment)\<close>
    by blast
  with h a b c d show ?thesis by blast
qed


section \<open>The extractors\<close>

text \<open>
  Claim C7.  Let the standalone file exist.  If it holds both sentinels and a line break
  follows the first start sentinel (the sentinel's line ends), the extractor returns
  the text from just after that line break up to just before the first end sentinel,
  with leading and trailing whitespace removed.  If either sentinel is absent it
  prints that the markers were not found and returns \<open>None\<close>.
\<close>

theorem standalone_extractor_contract:
  assumes \<open>files ''config_interface.html'' = Some content\<close>
  shows \<open>(\<forall>s e n. first_at start_marker content 0 s \<and> first_at end_marker content 0 e \<and>
                  first_at ''\<newline>'' content s n \<longrightarrow>
            extract_html_from_standalone files =
              ([], Some (strip (take (e - Suc n) (drop (Suc n) content))))) \<and>
         (absent_from start_marker content 0 \<or> absent_from end_marker content 0 \<longrightarrow>
            extract_html_from_standalone files = ([MarkersNotFound], None))\<close>
  using assms standalone_found[where files=files] standalone_missing[where files=files]
  by blast

text \<open>The theorem at a standalone file that wraps \<open><div>Hi</div>\<close>.\<close>

theorem standalone_extractor_contract_witness:
  \<open>files_hi ''config_interface.html'' = Some standalone_hi \<and>
   first_at start_marker standalone_hi 0 7 \<and>
   first_at end_marker standalone_hi 0 82 \<and>
   first_at ''\<newline>'' standalone_hi 7 67 \<and>
   take (82 - Suc 67) (drop (Suc 67) standalone_hi) = ''<div>Hi</div>\<newline>'' \<and>
   extract_html_from_standalone files_hi = ([], Some ''<div>Hi</div>'')\<close>
proof -
  have h: \<open>files_hi ''config_interface.html'' = Some standalone_hi\<close>
    by (simp add: files_hi_def)
  have a: \<open>first_at start_marker standalone_hi 0 7\<close>
    by (rule first_atI) (simp_all add: standalone_hi_def doc_defs)
  have b: \<open>first_at end_marker standalone_hi 0 82\<close>
    by (rule first_atI) (simp_all add: standalone_hi_def doc_defs)
  have c: \<open>first_at ''\<newline>'' standalone_hi 7 67\<close>
    by (rule first_atI) (simp_all add: standalone_hi_def doc_defs)
  have d: \<open>take (82 - Suc 67) (drop (Suc 67) standalone_hi) = ''<div>Hi</div>\<newline>''\<close>
    by (simp add: standalone_hi_def doc_defs)
  have \<open>extract_html_from_standalone files_hi =
          ([], Some (strip (take (82 - Suc 67) (drop (Suc 67) standalone_hi))))\<close>
    using standalone_extractor_contract[where files=files_hi, OF h] a b c by blast
  also have \<open>strip (take (82 - Suc 67) (drop (Suc 67) standalone_hi)) = ''<div>Hi</div>''\<close>
    by (simp only: d) (simp add: strip_def lstrip_def rstrip_def is_space_def)
  finally show ?thesis using h a b c d by blast
qed


text \<open>
  Claim C8.  Let the firmware file exist.  An occurrence of the pattern is a handler's
  opening brace, an opening token of the literal after it and a closing token with the
  statement terminator after that.  If there is none, the extractor prints that the
  pattern was not found and returns \<open>None\<close>.  If there is one, the match that
  \<open>re.search\<close> finds is the first textual occurrence: the first handler brace, the first
  opening token after it and the first closing token after that; the extractor returns
  the text between the two tokens with leading and trailing whitespace removed.
\<close>

theorem firmware_extractor_contract:
  assumes \<open>files ''swim_pacer.ino'' = Some content\<close>
  shows \<open>(\<not> (\<exists>h b c. occurs_at handler_open content h \<and> h + length handler_open \<le> b \<and>
                   occurs_at literal_open content b \<and> b + length literal_open \<le> c \<and>
                   occurs_at literal_close content c) \<longrightarrow>
          extract_html_from_ino files = ([InoPatternNotFound], None)) \<and>
         ((\<exists>h b c. occurs_at handler_open content h \<and> h + length handler_open \<le> b \<and>
                   occurs_at literal_open content b \<and> b + length literal_open \<le> c \<and>
                   occurs_at literal_close content c) \<longrightarrow>
          (\<exists>h b c. first_at handler_open content 0 h \<and>
                   first_at literal_open content (h + length handler_open) b \<and>
                   first_at literal_close content (b + length literal_open) c \<and>
                   extract_html_from_ino files =
                     ([], Some (strip (take (c - (b + length literal_open))
                                         (drop (b + length literal_open) content))))))\<close>
proof (intro conjI impI)
  assume \<open>\<not> (\<exists>h b c. occurs_at handler_open content h \<and> h + length handler_open \<le> b \<and>
                   occurs_at literal_open content b \<and> b + length literal_open \<le> c \<and>
                   occurs_at literal_close content c)\<close>
  with assms show \<open>extract_html_from_ino files = ([InoPatternNotFound], None)\<close>
    by (rule ino_not_found[where files=files])
next
  assume \<open>\<exists>h b c. occurs_at handler_open content h \<and> h + length handler_open \<le> b \<and>
                   occurs_at literal_open content b \<and> b + length literal_open \<le> c \<and>
                   occurs_at literal_close content c\<close>
  then obtain h b c where \<open>first_at handler_open content 0 h\<close>
    \<open>first_at literal_open content (h + length handler_open) b\<close>
    \<open>first_at literal_close content (b + length literal_open) c\<close>
    using first_chain_exists by blast
  with ino_found[where files=files, OF assms this]
  show \<open>\<exists>h b c. first_at handler_open content 0 h \<and>
                   first_at literal_open content (h + length handler_open) b \<and>
                   first_at literal_close content (b + length literal_open) c \<and>
                   extract_html_from_ino files =
                     ([], Some (strip (take (c - (b + length literal_open))
                                         (drop (b + length literal_open) content))))\<close>
    by blast
qed

text \<open>
  The theorem at a firmware file with two literals in the handler, where the body of the
  first is returned, and at a firmware file without the handler.
\<close>

theorem firmware_extractor_contract_witness:
  \<open>files_two_literals ''swim_pacer.ino'' = Some ino_two_literals \<and>
   occurs_at handler_open ino_two_literals 0 \<and>
   occurs_at literal_open ino_two_literals 20 \<and>
   occurs_at literal_close ino_two_literals 48 \<and>
   occurs_at literal_open ino_two_literals 52 \<and>
   (\<exists>h b c. first_at handler_open ino_two_literals 0 h \<and>
            first_at literal_open ino_two_literals (h + length handler_open) b \<and>
            first_at literal_close ino_two_literals (b + length literal_open) c \<and>
            extract_html_from_ino files_two_literals =
              ([], Some (strip (take (c - (b + length literal_open))
                                  (drop (b + length literal_open) ino_two_literals))))) \<and>
   extract_html_from_ino files_two_literals = ([], Some ''<p>a</p>'') \<and>
   files_x ''swim_pacer.ino'' = Some ino_minimal \<and>
   extract_html_from_ino files_x = ([InoPatternNotFound], None)\<close>
proof -
  have f: \<open>files_two_literals ''swim_pacer.ino'' = Some ino_two_literals\<close>
    by (simp add: files_two_literals_def)
  have o1: \<open>occurs_at handler_open ino_two_literals 0\<close>
    and o2: \<open>occurs_at literal_open ino_two_literals 20\<close>
    and o3: \<open>occurs_at literal_close ino_two_literals 48\<close>
    and o4: \<open>occurs_at literal_open ino_two_literals 52\<close>
    by (simp_all add: occurs_at_def ino_two_literals_def doc_defs)
  have \<open>\<exists>h b c. occurs_at handler_open ino_two_literals h \<and> h + length handler_open \<le> b \<and>
          occurs_at literal_open ino_two_literals b \<and> b + length literal_open \<le> c \<and>
          occurs_at literal_close ino_two_literals c\<close>
  proof (intro exI conjI)
    show \<open>occurs_at handler_open ino_two_literals 0\<close> by (rule o1)
    show \<open>occurs_at literal_open ino_two_literals 20\<close> by (rule o2)
    show \<open>occurs_at literal_close ino_two_literals 48\<close> by (rule o3)
    show \<open>0 + length handler_open \<le> 20\<close> by (simp add: handler_open_def)
    show \<open>20 + length literal_open \<le> 48\<close> by (simp add: literal_open_def)
  qed
  with firmware_extractor_contract[where files=files_two_literals, OF f]
  have ex: \<open>\<exists>h b c. first_at handler_open ino_two_literals 0 h \<and>
            first_at literal_open ino_two_literals (h + length handler_open) b \<and>
            first_at literal_close ino_two_literals (b + length literal_open) c \<and>
            extract_html_from_ino files_two_literals =
              ([], Some (strip (take (c - (b + length literal_open))
                                  (drop (b + length literal_open) ino_two_literals))))\<close>
    by blast
  have v: \<open>extract_html_from_ino files_two_literals = ([], Some ''<p>a</p>'')\<close>
    by (simp add: check_defs files_two_literals_def ino_two_literals_def)
  have g: \<open>files_x ''swim_pacer.ino'' = Some ino_minimal\<close>
    by (simp add: files_x_def)
  have \<open>\<forall>j. \<not> occurs_at handler_open ino_minimal j\<close>
    by (rule absent_allI) (simp add: doc_defs)
  then have \<open>\<not> (\<exists>h b c. occurs_at handler_open ino_minimal h \<and> h + length handler_open \<le> b \<and>
          occurs_at literal_open ino_minimal b \<and> b + length literal_open \<le> c \<and>
          occurs_at literal_close ino_minimal c)\<close>
    by blast
  with firmware_extractor_contract[where files=files_x, OF g]
  have n: \<open>extract_html_from_ino files_x = ([InoPatternNotFound], None)\<close>
    by blast
  from f o1 o2 o3 o4 ex v g n show ?thesis by blast
qed


section \<open>The comparator\<close>

text \<open>
  Claim C9.  Let both extractors succeed and the two normalized strings differ.  Then
  the verdict is failure.  If \<open>i\<close> is the lowest index below the length of the shorter
  string at which the strings differ, the report ends with that index and one window of
  each string, from 50 characters before the index to 50 characters from the index on,
  cut at the ends of the standalone string.  If one string is a strict prefix of the
  other, the report ends with the two lengths and has no position.  One of the two
  cases always applies.
\<close>

theorem compare_reports_first_difference:
  fixes files :: fs
  assumes \<open>extract_html_from_standalone files = (out1, Some standalone_html)\<close>
    and \<open>extract_html_from_ino files = (out2, Some ino_html)\<close>
    and \<open>normalize_html standalone_html \<noteq> normalize_html ino_html\<close>
  shows \<open>snd (compare_html files) = False \<and>
         (\<forall>i. i < min (length (normalize_html standalone_html)) (length (normalize_html ino_html)) \<and>
              normalize_html standalone_html ! i \<noteq> normalize_html ino_html ! i \<and>
              (\<forall>j<i. normalize_html standalone_html ! j = normalize_html ino_html ! j) \<longrightarrow>
            fst (compare_html files) =
              [Checking, Rule] @ out1 @ out2 @
              [NotSynchronized,
               StandaloneLength (length (normalize_html standalone_html)),
               InoLength (length (normalize_html ino_html)),
               FirstDifference i,
               StandaloneContext (drop (i - 50) (take (i + 50) (normalize_html standalone_html))),
               InoContext (drop (i - 50)
                 (take (min (length (normalize_html standalone_html)) (i + 50))
                    (normalize_html ino_html)))]) \<and>
         (strict_prefix (normalize_html standalone_html) (normalize_html ino_html) \<or>
          strict_prefix (normalize_html ino_html) (normalize_html standalone_html) \<longrightarrow>
            fst (compare_html files) =
              [Checking, Rule] @ out1 @ out2 @
              [NotSynchronized,
               StandaloneLength (length (normalize_html standalone_html)),
               InoLength (length (normalize_html ino_html))]) \<and>
         ((\<exists>i<min (length (normalize_html standalone_html)) (length (normalize_html ino_html)).
             normalize_html standalone_html ! i \<noteq> normalize_html ino_html ! i \<and>
             (\<forall>j<i. normalize_html standalone_html ! j = normalize_html ino_html ! j)) \<or>
          strict_prefix (normalize_html standalone_html) (normalize_html ino_html) \<or>
          strict_prefix (normalize_html ino_html) (normalize_html standalone_html))\<close>
  using compare_mismatch[OF assms(1,2) refl refl assms(3)] .

text \<open>
  The theorem at a pair of files that differ at index 6, and at a pair whose standalone
  text is a strict prefix of the firmware text.
\<close>

theorem compare_reports_first_difference_witness:
  \<open>extract_html_from_standalone files_hello = ([], Some ''<div>Hi</div>'') \<and>
   extract_html_from_ino files_hello = ([], Some ''<div>Hello</div>'') \<and>
   normalize_html ''<div>Hi</div>'' = ''<div>Hi</div>'' \<and>
   normalize_html ''<div>Hello</div>'' = ''<div>Hello</div>'' \<and>
   compare_html files_hello =
     ([Checking, Rule, NotSynchronized, StandaloneLength 13, InoLength 16, FirstDifference 6,
       StandaloneContext ''<div>Hi</div>'', InoContext ''<div>Hello</d''], False) \<and>
   extract_html_from_standalone files_hi_more = ([], Some ''<div>Hi</div>'') \<and>
   extract_html_from_ino files_hi_more = ([], Some ''<div>Hi</div><p>'') \<and>
   normalize_html ''<div>Hi</div><p>'' = ''<div>Hi</div><p>'' \<and>
   strict_prefix ''<div>Hi</div>'' ''<div>Hi</div><p>'' \<and>
   compare_html files_hi_more =
     ([Checking, Rule, NotSynchronized, StandaloneLength 13, InoLength 16], False)\<close>
proof -
  have e1: \<open>extract_html_from_standalone files_hello = ([], Some ''<div>Hi</div>'')\<close>
    by (simp add: check_defs)
  have e2: \<open>extract_html_from_ino files_hello = ([], Some ''<div>Hello</div>'')\<close>
    by (simp add: check_defs)
  have n1: \<open>normalize_html ''<div>Hi</div>'' = ''<div>Hi</div>''\<close>
    by (simp add: check_defs)
  have n2: \<open>normalize_html ''<div>Hello</div>'' = ''<div>Hello</div>''\<close>
    by (simp add: check_defs)
  have d: \<open>6 < min (length (normalize_html ''<div>Hi</div>''))
                     (length (normalize_html ''<div>Hello</div>'')) \<and>
           normalize_html ''<div>Hi</div>'' ! 6 \<noteq> normalize_html ''<div>Hello</div>'' ! 6 \<and>
           (\<forall>j<6. normalize_html ''<div>Hi</div>'' ! j = normalize_html ''<div>Hello</div>'' ! j)\<close>
    unfolding n1 n2 by (simp add: nth_Cons' less_Suc_eq eval_nat_numeral)
  have ne: \<open>normalize_html ''<div>Hi</div>'' \<noteq> normalize_html ''<div>Hello</div>''\<close>
    by (simp add: n1 n2)
  note T = compare_reports_first_difference[OF e1 e2 ne]
  from T have s1: \<open>snd (compare_html files_hello) = False\<close> by blast
  from T d have \<open>fst (compare_html files_hello) =
      [Checking, Rule] @ [] @ [] @
      [NotSynchronized,
       StandaloneLength (length (normalize_html ''<div>Hi</div>'')),
       InoLength (length (normalize_html ''<div>Hello</div>'')),
       FirstDifference 6,
       StandaloneContext (drop (6 - 50) (take (6 + 50) (normalize_html ''<div>Hi</div>''))),
       InoContext (drop (6 - 50)
         (take (min (length (normalize_html ''<div>Hi</div>'')) (6 + 50))
            (normalize_html ''<div>Hello</div>'')))]\<close>
    by blast
  then have \<open>fst (compare_html files_hello) =
      [Checking, Rule, NotSynchronized, StandaloneLength 13, InoLength 16, FirstDifference 6,
       StandaloneContext ''<div>Hi</div>'', InoContext ''<div>Hello</d'']\<close>
    unfolding n1 n2 by simp
  with s1 have \<open>snd (compare_html files_hello) = False\<close>
    and \<open>fst (compare_html files_hello) =
      [Checking, Rule, NotSynchronized, StandaloneLength 13, InoLength 16, FirstDifference 6,
       StandaloneContext ''<div>Hi</div>'', InoContext ''<div>Hello</d'']\<close>
    by simp_all
  then have c1: \<open>compare_html files_hello =
     ([Checking, Rule, NotSynchronized, StandaloneLength 13, InoLength 16, FirstDifference 6,
       StandaloneContext ''<div>Hi</div>'', InoContext ''<div>Hello</d''], False)\<close>
    by (simp add: prod_eq_iff)
  have e3: \<open>extract_html_from_standalone files_hi_more = ([], Some ''<div>Hi</div>'')\<close>
    by (simp add: check_defs)
  have e4: \<open>extract_html_from_ino files_hi_more = ([], Some ''<div>Hi</div><p>'')\<close>
    by (simp add: check_defs)
  have n3: \<open>normalize_html ''<div>Hi</div><p>'' = ''<div>Hi</div><p>''\<close>
    by (simp add: check_defs)
  have p: \<open>strict_prefix ''<div>Hi</div>'' ''<div>Hi</div><p>''\<close>
    by (simp add: strict_prefix_def)
  have ne': \<open>normalize_html ''<div>Hi</div>'' \<noteq> normalize_html ''<div>Hi</div><p>''\<close>
    by (simp add: n1 n3)
  have p': \<open>strict_prefix (normalize_html ''<div>Hi</div>'') (normalize_html ''<div>Hi</div><p>'')\<close>
    unfolding n1 n3 by (rule p)
  note U = compare_reports_first_difference[OF e3 e4 ne']
  from U have s2: \<open>snd (compare_html files_hi_more) = False\<close> by blast
  from U p' have \<open>fst (compare_html files_hi_more) =
      [Checking, Rule] @ [] @ [] @
      [NotSynchronized,
       StandaloneLength (length (normalize_html ''<div>Hi</div>'')),
       InoLength (length (normalize_html ''<div>Hi</div><p>''))]\<close>
    by blast
  then have \<open>fst (compare_html files_hi_more) =
      [Checking, Rule, NotSynchronized, StandaloneLength 13, InoLength 16]\<close>
    unfolding n1 n3 by simp
  with s2 have \<open>snd (compare_html files_hi_more) = False\<close>
    and \<open>fst (compare_html files_hi_more) =
      [Checking, Rule, NotSynchronized, StandaloneLength 13, InoLength 16]\<close>
    by simp_all
  then have c2: \<open>compare_html files_hi_more =
     ([Checking, Rule, NotSynchronized, StandaloneLength 13, InoLength 16], False)\<close>
    by (simp add: prod_eq_iff)
  from e1 e2 n1 n2 c1 e3 e4 n3 p c2 show ?thesis by blast
qed


section \<open>Idempotence and round trip\<close>

text \<open>
  Claim C3, as amended.  Let the update operation return 0, and let the trimmed text of
  the standalone file hold the end marker and, from its first end marker on, no closing
  token followed by a line break (the line break that the splicer appends counts).
  Then a second run on the files it left returns 0 again, prints the same lines and leaves
  the same files: the firmware file is the same text after the second run as after the
  first.
\<close>

theorem update_twice_same:
  assumes \<open>update_main files = (printed, 0, files')\<close>
    and \<open>files ''config_interface.html'' = Some standalone\<close>
    and \<open>first_at end_marker (strip standalone) 0 m\<close>
    and \<open>absent_from literal_close_nl (strip standalone @ ''\<newline>'') m\<close>
  shows \<open>update_main files' = (printed, 0, files')\<close>
  using assms by (rule update_main_again)

text \<open>The theorem at a standalone file with both sentinels.\<close>

theorem update_twice_same_witness:
  \<open>fst (snd (update_main files_hi_minimal)) = 0 \<and>
   files_hi_minimal ''config_interface.html'' = Some standalone_hi \<and>
   first_at end_marker (strip standalone_hi) 0 82 \<and>
   absent_from literal_close_nl (strip standalone_hi @ ''\<newline>'') 82 \<and>
   update_main (snd (snd (update_main files_hi_minimal))) = update_main files_hi_minimal\<close>
proof -
  have r: \<open>fst (snd (update_main files_hi_minimal)) = 0\<close>
    by (simp add: all_defs)
  then have u: \<open>update_main files_hi_minimal =
      (fst (update_main files_hi_minimal), 0, snd (snd (update_main files_hi_minimal)))\<close>
    by (simp add: prod_eq_iff)
  have s: \<open>files_hi_minimal ''config_interface.html'' = Some standalone_hi\<close>
    by (simp add: files_hi_minimal_def)
  have st: \<open>strip standalone_hi =
      ''<html>\<newline>'' @ start_marker @ ''\<newline><div>Hi</div>\<newline>'' @ end_marker @
      ''\<newline></html>''\<close>
    by (simp add: all_defs)
  have m: \<open>first_at end_marker (strip standalone_hi) 0 82\<close>
    unfolding st by (rule first_atI) (simp_all add: doc_defs)
  have n: \<open>absent_from literal_close_nl (strip standalone_hi @ ''\<newline>'') 82\<close>
    unfolding st by (rule absent_fromI) (simp_all add: doc_defs)
  from update_twice_same[OF u s m n] u
  have \<open>update_main (snd (snd (update_main files_hi_minimal))) = update_main files_hi_minimal\<close>
    by simp
  with r s m n show ?thesis by blast
qed

text \<open>
  Claim C3 as stated covers every standalone file.  The file \<open>standalone_x\<close> has no end
  marker: the first run succeeds and replaces the literal body, the marker with it, and
  the second run raises.
\<close>

theorem update_twice_fails_counterexample:
  \<open>fst (snd (update_main files_x)) = 0 \<and>
   fst (update_main (snd (snd (update_main files_x)))) =
     [Extracting, Extracted 1, Updating,
      Failed (ValueError ''Could not find end marker in ESP32 file'')] \<and>
   fst (snd (update_main (snd (snd (update_main files_x))))) = 1\<close>
proof -
  have h: \<open>update_main files_x =
     ([Extracting, Extracted 1, Updating, Updated, ShouldBeSynchronized], 0,
      files_x(''swim_pacer.ino'' \<mapsto> literal_open @ ''\<newline>x\<newline>'' @ literal_close_nl))\<close>
    by (simp add: eval_defs)
  have \<open>update_main (files_x(''swim_pacer.ino'' \<mapsto>
            literal_open @ ''\<newline>x\<newline>'' @ literal_close_nl)) =
     ([Extracting, Extracted 1, Updating,
       Failed (ValueError ''Could not find end marker in ESP32 file'')], 1,
      files_x(''swim_pacer.ino'' \<mapsto> literal_open @ ''\<newline>x\<newline>'' @ literal_close_nl))\<close>
    by (simp add: eval_defs)
  with h show ?thesis by simp
qed

text \<open>
  Claim C2, as amended.  Let the update operation return 0, let the standalone file hold
  no closing token \<^verbatim>\<open>)";\<close>, and let the handler's opening brace stand in the firmware file
  before the first literal-opening token.  Then the firmware extractor, run on the files
  the update left, returns the text of the standalone file with leading and trailing
  whitespace removed.
\<close>

theorem update_then_extract_round_trip:
  assumes \<open>update_main files = (printed, 0, files')\<close>
    and \<open>files ''config_interface.html'' = Some standalone\<close>
    and \<open>files ''swim_pacer.ino'' = Some ino\<close>
    and \<open>first_at handler_open ino 0 h\<close>
    and \<open>first_at literal_open ino 0 a\<close>
    and \<open>h + length handler_open \<le> a\<close>
    and \<open>absent_from literal_close standalone 0\<close>
  shows \<open>extract_html_from_ino files' = ([], Some (strip standalone))\<close>
  using assms by (rule update_then_extract)

text \<open>The theorem at a firmware file whose literal is inside the handler.\<close>

theorem update_then_extract_round_trip_witness:
  \<open>fst (snd (update_main files_x_handler)) = 0 \<and>
   files_x_handler ''config_interface.html'' = Some standalone_x \<and>
   files_x_handler ''swim_pacer.ino'' = Some ino_handler \<and>
   first_at handler_open ino_handler 0 0 \<and>
   first_at literal_open ino_handler 0 20 \<and>
   0 + length handler_open \<le> 20 \<and>
   absent_from literal_close standalone_x 0 \<and>
   strip standalone_x = ''x'' \<and>
   extract_html_from_ino (snd (snd (update_main files_x_handler))) = ([], Some ''x'')\<close>
proof -
  have r: \<open>fst (snd (update_main files_x_handler)) = 0\<close>
    by (simp add: all_defs)
  then have u: \<open>update_main files_x_handler =
      (fst (update_main files_x_handler), 0, snd (snd (update_main files_x_handler)))\<close>
    by (simp add: prod_eq_iff)
  have s: \<open>files_x_handler ''config_interface.html'' = Some standalone_x\<close>
    and i: \<open>files_x_handler ''swim_pacer.ino'' = Some ino_handler\<close>
    by (simp_all add: files_x_handler_def)
  have hh: \<open>first_at handler_open ino_handler 0 0\<close>
    by (rule first_atI) (simp_all add: ino_handler_def doc_defs)
  have a: \<open>first_at literal_open ino_handler 0 20\<close>
    by (rule first_atI) (simp_all add: ino_handler_def doc_defs)
  have l: \<open>0 + length handler_open \<le> 20\<close> by (simp add: handler_open_def)
  have n: \<open>absent_from literal_close standalone_x 0\<close>
    by (rule absent_fromI) (simp_all add: doc_defs)
  have st: \<open>strip standalone_x = ''x''\<close> by (simp add: all_defs)
  from update_then_extract_round_trip[OF u s i hh a l n] st
  have \<open>extract_html_from_ino (snd (snd (update_main files_x_handler))) = ([], Some ''x'')\<close>
    by simp
  with r s i hh a l n st show ?thesis by blast
qed

text \<open>
  Claim C2 as stated asks only that the splicer succeed.  The splicer does not look for
  the handler; on \<open>ino_minimal\<close>, which has none, it succeeds and the extractor then
  finds no match.
\<close>

theorem update_then_extract_counterexample:
  \<open>fst (snd (update_main files_x)) = 0 \<and>
   files_x ''config_interface.html'' = Some standalone_x \<and>
   absent_from literal_close standalone_x 0 \<and>
   strip standalone_x = ''x'' \<and>
   extract_html_from_ino (snd (snd (update_main files_x))) = ([InoPatternNotFound], None)\<close>
proof -
  have h: \<open>update_main files_x =
     ([Extracting, Extracted 1, Updating, Updated, ShouldBeSynchronized], 0,
      files_x(''swim_pacer.ino'' \<mapsto> literal_open @ ''\<newline>x\<newline>'' @ literal_close_nl))\<close>
    by (simp add: eval_defs)
  have e: \<open>extract_html_from_ino (files_x(''swim_pacer.ino'' \<mapsto>
            literal_open @ ''\<newline>x\<newline>'' @ literal_close_nl)) = ([InoPatternNotFound], None)\<close>
    by (simp add: all_defs)
  have n: \<open>absent_from literal_close standalone_x 0\<close>
    by (rule absent_fromI) (simp_all add: doc_defs)
  have st: \<open>strip standalone_x = ''x''\<close> by (simp add: all_defs)
  from h e n st show ?thesis by (simp add: files_x_def)
qed

end
